theory Spec2Isabelle
  imports Main "HOL-Library.Sublist"
begin

section \<open>Values handled by the backend\<close>

text \<open>
  \<open>main.py\<close> passes around whatever \<open>json.loads\<close> returned for the model's answer, so
  an entry of \<open>results\<close> is an arbitrary decoded JSON value. The datatype below has one
  constructor per Python type that \<open>json.loads\<close> produces, floats excepted (JSON numbers
  are kept as unbounded integers). A \<open>char\<close> of a \<open>PStr\<close> stands for one character of
  the Python string. A dictionary is the list of its items in insertion order; looking a
  key up is \<open>map_of\<close>.
\<close>

datatype pyval =
    PNone
  | PBool bool
  | PInt int
  | PStr string
  | PList "pyval list"
  | PDict "(string \<times> pyval) list"

text \<open>
  The exceptions that the operations used by \<open>merge_results\<close> can raise, and one
  constructor for whatever the external model call raises.
\<close>

datatype error = TypeError | KeyError | IndexError | ExternalError

definition and_then :: "error + 'a \<Rightarrow> ('a \<Rightarrow> error + 'b) \<Rightarrow> error + 'b" where
  "and_then m f = (case m of Inl e \<Rightarrow> Inl e | Inr x \<Rightarrow> f x)"

text \<open>\<open>isinstance(v, dict)\<close>.\<close>

fun is_dict :: "pyval \<Rightarrow> bool" where
  "is_dict (PDict d) = True"
| "is_dict v = False"

text \<open>
  \<open>k in v\<close> for a string \<open>k\<close>: key membership in a dictionary, element membership in a
  list, substring test in a string, \<open>TypeError\<close> for the values that are no containers.
\<close>

fun py_contains :: "string \<Rightarrow> pyval \<Rightarrow> error + bool" where
  "py_contains k (PDict d) = Inr (map_of d k \<noteq> None)"
| "py_contains k (PList xs) = Inr (PStr k \<in> set xs)"
| "py_contains k (PStr s) = Inr (sublist k s)"
| "py_contains k v = Inl TypeError"

text \<open>
  \<open>v[k]\<close> for a string \<open>k\<close>: the value stored in a dictionary (\<open>KeyError\<close> when
  absent); strings and lists take integer indices only, the other values are not
  subscriptable.
\<close>

fun py_getitem :: "pyval \<Rightarrow> string \<Rightarrow> error + pyval" where
  "py_getitem (PDict d) k = (case map_of d k of None \<Rightarrow> Inl KeyError | Some v \<Rightarrow> Inr v)"
| "py_getitem v k = Inl TypeError"

text \<open>
  Iterating over a value, as \<open>list.extend\<close> does: the elements of a list, the characters
  of a string, the keys of a dictionary.
\<close>

fun py_iter :: "pyval \<Rightarrow> error + pyval list" where
  "py_iter (PList xs) = Inr xs"
| "py_iter (PStr s) = Inr (map (\<lambda>c. PStr [c]) s)"
| "py_iter (PDict d) = Inr (map (\<lambda>kv. PStr (fst kv)) d)"
| "py_iter v = Inl TypeError"

text \<open>
  Lists and dictionaries are unhashable. Among the hashable values \<open>True == 1\<close> and
  \<open>False == 0\<close> (with equal hashes), and no other two distinct values are equal:
  \<open>py_key\<close> maps a value to the representative of its equality class.
\<close>

fun hashable :: "pyval \<Rightarrow> bool" where
  "hashable (PList xs) = False"
| "hashable (PDict d) = False"
| "hashable v = True"

fun py_key :: "pyval \<Rightarrow> pyval" where
  "py_key (PBool b) = PInt (if b then 1 else 0)"
| "py_key v = v"

section \<open>\<open>collections.Counter\<close> and \<open>set\<close>\<close>

text \<open>
  A \<open>Counter\<close> is a dictionary from keys to counts; it is modelled by the list of its
  items in insertion order, which is the order in which Python iterates over it.
  \<open>counter[k] += 1\<close> increments the count of the key equal to \<open>k\<close> where it stands, or
  appends \<open>k\<close> with the count 1; it raises \<open>TypeError\<close> when \<open>k\<close> is unhashable.
\<close>

type_synonym counter = "(pyval \<times> nat) list"

fun counter_add :: "pyval \<Rightarrow> counter \<Rightarrow> counter" where
  "counter_add k [] = [(k, 1)]"
| "counter_add k ((k', n) # c) =
     (if py_key k = py_key k' then (k', Suc n) # c else (k', n) # counter_add k c)"

definition counter_incr :: "pyval \<Rightarrow> counter \<Rightarrow> error + counter" where
  "counter_incr k c = (if hashable k then Inr (counter_add k c) else Inl TypeError)"

text \<open>
  \<open>most_common(1)\<close> is \<open>heapq.nlargest(1, items, key=count)\<close>, which for \<open>n = 1\<close> is
  \<open>max(items, key=count)\<close>: it walks the items in order and replaces the best item so
  far only by one of a strictly greater count.
\<close>

fun max_by_count :: "pyval \<times> nat \<Rightarrow> counter \<Rightarrow> pyval \<times> nat" where
  "max_by_count best [] = best"
| "max_by_count best (x # xs) =
     (if snd best < snd x then max_by_count x xs else max_by_count best xs)"

definition most_common_1 :: "counter \<Rightarrow> (pyval \<times> nat) list" where
  "most_common_1 c = (case c of [] \<Rightarrow> [] | x # xs \<Rightarrow> [max_by_count x xs])"

text \<open>\<open>c.most_common(1)[0][0] if c else "Unknown"\<close>.\<close>

definition top_or_unknown :: "counter \<Rightarrow> error + pyval" where
  "top_or_unknown c =
     (if c \<noteq> [] then
        (case most_common_1 c of [] \<Rightarrow> Inl IndexError | x # xs \<Rightarrow> Inr (fst x))
      else Inr (PStr ''Unknown''))"

text \<open>
  \<open>list(set(xs))\<close>: \<open>set\<close> hashes every element (\<open>TypeError\<close> on an unhashable one)
  and keeps the first of each class of equal elements. The order of the resulting list
  depends on the hashes, so the result is modelled as the set of the elements kept.
\<close>

definition set_add :: "pyval \<Rightarrow> pyval list \<Rightarrow> pyval list" where
  "set_add x s = (if py_key x \<in> py_key ` set s then s else s @ [x])"

definition py_set :: "pyval list \<Rightarrow> error + pyval set" where
  "py_set xs =
     (if list_all hashable xs then Inr (set (fold set_add xs [])) else Inl TypeError)"

section \<open>\<open>merge_results\<close>\<close>

text \<open>
  The five fields of one lens and the two lenses. \<open>merged_data\<close> holds a \<open>Counter\<close> per
  scalar field and a list for \<open>side_effects\<close>; the returned dictionary holds a value per
  scalar field and the deduplicated \<open>side_effects\<close>.
\<close>

record ('c, 's) lens_data =
  name :: 'c
  dosage :: 'c
  side_effects :: 's
  manufacturer :: 'c
  usage :: 'c

record 'l profile =
  accurate :: 'l
  guessed :: 'l

type_synonym merged_data = "(counter, pyval list) lens_data profile"
type_synonym medicine = "(pyval, pyval set) lens_data profile"

definition empty_lens :: "(counter, pyval list) lens_data" where
  "empty_lens = \<lparr>name = [], dosage = [], side_effects = [], manufacturer = [], usage = []\<rparr>"

definition empty_merged :: merged_data where
  "empty_merged = \<lparr>accurate = empty_lens, guessed = empty_lens\<rparr>"

text \<open>\<open>if key in data: counter[data[key]] += 1\<close>.\<close>

definition tally_field :: "string \<Rightarrow> pyval \<Rightarrow> counter \<Rightarrow> error + counter" where
  "tally_field key data c =
     and_then (py_contains key data) (\<lambda>present.
       if present then and_then (py_getitem data key) (\<lambda>v. counter_incr v c)
       else Inr c)"

text \<open>\<open>if key in data: collected.extend(data[key])\<close>.\<close>

definition extend_field :: "string \<Rightarrow> pyval \<Rightarrow> pyval list \<Rightarrow> error + pyval list" where
  "extend_field key data collected =
     and_then (py_contains key data) (\<lambda>present.
       if present then
         and_then (py_getitem data key) (\<lambda>v.
           and_then (py_iter v) (\<lambda>xs. Inr (collected @ xs)))
       else Inr collected)"

text \<open>
  The body of \<open>if "accurate" in result\<close> (and of the same block for \<open>"guessed"\<close>): the
  five fields in the order of the source.
\<close>

definition merge_lens ::
  "pyval \<Rightarrow> (counter, pyval list) lens_data \<Rightarrow> error + (counter, pyval list) lens_data" where
  "merge_lens data acc =
     and_then (tally_field ''name'' data (name acc)) (\<lambda>n.
     and_then (tally_field ''dosage'' data (dosage acc)) (\<lambda>d.
     and_then (extend_field ''side_effects'' data (side_effects acc)) (\<lambda>s.
     and_then (tally_field ''manufacturer'' data (manufacturer acc)) (\<lambda>m.
     and_then (tally_field ''usage'' data (usage acc)) (\<lambda>u.
       Inr \<lparr>name = n, dosage = d, side_effects = s, manufacturer = m, usage = u\<rparr>)))))"

text \<open>One iteration of \<open>for result in results\<close>.\<close>

definition merge_result :: "pyval \<Rightarrow> merged_data \<Rightarrow> error + merged_data" where
  "merge_result result acc =
     (case result of
        PDict d \<Rightarrow>
          and_then (case map_of d ''accurate'' of
                      None \<Rightarrow> Inr (accurate acc)
                    | Some data \<Rightarrow> merge_lens data (accurate acc)) (\<lambda>a.
          and_then (case map_of d ''guessed'' of
                      None \<Rightarrow> Inr (guessed acc)
                    | Some data \<Rightarrow> merge_lens data (guessed acc)) (\<lambda>g.
            Inr \<lparr>accurate = a, guessed = g\<rparr>))
      | _ \<Rightarrow> Inr acc)"

fun merge_loop :: "pyval list \<Rightarrow> merged_data \<Rightarrow> error + merged_data" where
  "merge_loop [] acc = Inr acc"
| "merge_loop (result # results) acc =
     and_then (merge_result result acc) (merge_loop results)"

text \<open>The dictionary built by the \<open>return\<close> statement, one lens at a time.\<close>

definition summarise_lens ::
  "(counter, pyval list) lens_data \<Rightarrow> error + (pyval, pyval set) lens_data" where
  "summarise_lens acc =
     and_then (top_or_unknown (name acc)) (\<lambda>n.
     and_then (top_or_unknown (dosage acc)) (\<lambda>d.
     and_then (py_set (side_effects acc)) (\<lambda>s.
     and_then (top_or_unknown (manufacturer acc)) (\<lambda>m.
     and_then (top_or_unknown (usage acc)) (\<lambda>u.
       Inr \<lparr>name = n, dosage = d, side_effects = s, manufacturer = m, usage = u\<rparr>)))))"

definition summarise :: "merged_data \<Rightarrow> error + medicine" where
  "summarise acc =
     and_then (summarise_lens (accurate acc)) (\<lambda>a.
     and_then (summarise_lens (guessed acc)) (\<lambda>g.
       Inr \<lparr>accurate = a, guessed = g\<rparr>))"

definition merge_results :: "pyval list \<Rightarrow> error + medicine" where
  "merge_results results = and_then (merge_loop results empty_merged) summarise"

section \<open>\<open>identify_medicine\<close>\<close>

text \<open>
  What the endpoint returns: \<open>{"error": message}\<close> or \<open>{"medicine": final_result}\<close>.
\<close>

datatype 'm response = ErrorResponse string | MedicineResponse 'm

text \<open>\<open>isinstance(ai_result, dict) and "error" in ai_result\<close>.\<close>

fun failure_marker :: "pyval \<Rightarrow> bool" where
  "failure_marker (PDict d) = (map_of d ''error'' \<noteq> None)"
| "failure_marker v = False"

text \<open>
  The loop over the uploaded files. \<open>analyze_image\<close> calls the external model and is a
  parameter; an exception that it raises leaves the endpoint. A file stands for the bytes
  that \<open>file.read()\<close> gives.
\<close>

fun collect_responses ::
  "('f \<Rightarrow> error + pyval) \<Rightarrow> 'f list \<Rightarrow> pyval list \<Rightarrow> error + pyval list" where
  "collect_responses analyze_image [] responses = Inr responses"
| "collect_responses analyze_image (file # files) responses =
     and_then (analyze_image file) (\<lambda>ai_result.
       if failure_marker ai_result then collect_responses analyze_image files responses
       else collect_responses analyze_image files (responses @ [ai_result]))"

text \<open>
  The endpoint, first with the function it hands the responses to as a parameter, then
  with \<open>merge_results\<close> in that place, as in the source.
\<close>

definition identify_medicine_with ::
  "(pyval list \<Rightarrow> error + 'm) \<Rightarrow> ('f \<Rightarrow> error + pyval) \<Rightarrow> 'f list \<Rightarrow> error + 'm response" where
  "identify_medicine_with aggregate analyze_image files =
     and_then (collect_responses analyze_image files []) (\<lambda>responses.
       if responses = [] then
         Inr (ErrorResponse ''Failed to identify medicine from provided images'')
       else and_then (aggregate responses) (\<lambda>final_result.
         Inr (MedicineResponse final_result)))"

definition identify_medicine ::
  "('f \<Rightarrow> error + pyval) \<Rightarrow> 'f list \<Rightarrow> error + medicine response" where
  "identify_medicine = identify_medicine_with merge_results"

section \<open>The objects that \<open>merge_results\<close> works on\<close>

text \<open>
  \<open>merge_results\<close> receives a reference to a list of references to dictionaries and
  fills \<open>Counter\<close>s and lists in place. To speak of what it leaves unchanged, the
  objects are kept in a store. A value is \<open>None\<close>, a boolean, an integer, a string or
  the address of an object.
\<close>

datatype hval = HNone | HBool bool | HInt int | HStr string | HRef nat

text \<open>
  An object is a list, a dictionary with string keys (the dictionaries that
  \<open>json.loads\<close> builds, in insertion order) or a \<open>Counter\<close>.
\<close>

datatype hobj =
    HList "hval list"
  | HDict "(string \<times> hval) list"
  | HCounter counter

text \<open>
  The store: the object at each address and the first address not yet in use. The
  addresses below \<open>next_free\<close> are those of the objects that exist.
\<close>

record heap =
  objs :: "nat \<Rightarrow> hobj"
  next_free :: nat

text \<open>Building a new object (\<open>Counter()\<close>, \<open>[]\<close>) and updating an object in place.\<close>

definition alloc :: "hobj \<Rightarrow> heap \<Rightarrow> nat \<times> heap" where
  "alloc obj h =
     (next_free h, h\<lparr>objs := (objs h)(next_free h := obj), next_free := Suc (next_free h)\<rparr>)"

definition store :: "nat \<Rightarrow> hobj \<Rightarrow> heap \<Rightarrow> heap" where
  "store a obj h = h\<lparr>objs := (objs h)(a := obj)\<rparr>"

text \<open>
  A statement runs from a store to an exception or a value, and the store it leaves.
  \<open>then_h\<close> is the sequence of two statements: an exception of the first ends the run.
\<close>

type_synonym 'a run = "heap \<Rightarrow> (error + 'a) \<times> heap"

definition return_h :: "'a \<Rightarrow> 'a run" where
  "return_h x h = (Inr x, h)"

definition read_h :: "(heap \<Rightarrow> error + 'a) \<Rightarrow> 'a run" where
  "read_h r h = (r h, h)"

definition then_h :: "'a run \<Rightarrow> ('a \<Rightarrow> 'b run) \<Rightarrow> 'b run" where
  "then_h m f h = (case m h of (Inl e, h') \<Rightarrow> (Inl e, h') | (Inr x, h') \<Rightarrow> f x h')"

text \<open>
  The value of a reference that can be a key of a \<open>Counter\<close> or a member of a \<open>set\<close>:
  lists and dictionaries are not hashable.
\<close>

fun scalar :: "hval \<Rightarrow> pyval option" where
  "scalar HNone = Some PNone"
| "scalar (HBool b) = Some (PBool b)"
| "scalar (HInt i) = Some (PInt i)"
| "scalar (HStr s) = Some (PStr s)"
| "scalar (HRef a) = None"

text \<open>\<open>counter[key]\<close>, which is 0 for a key not counted yet.\<close>

fun counter_get :: "counter \<Rightarrow> pyval \<Rightarrow> nat" where
  "counter_get [] k = 0"
| "counter_get ((k', n) # c) k = (if py_key k = py_key k' then n else counter_get c k)"

text \<open>A key of a \<open>Counter\<close> as a value.\<close>

fun h_key_of :: "pyval \<Rightarrow> hval" where
  "h_key_of (PBool b) = HBool b"
| "h_key_of (PInt i) = HInt i"
| "h_key_of (PStr s) = HStr s"
| "h_key_of v = HNone"

text \<open>
  \<open>isinstance(v, dict)\<close>, \<open>key in v\<close>, \<open>v[key]\<close> and the iteration over \<open>v\<close>, reading
  the object that \<open>v\<close> refers to. A \<open>Counter\<close> is a \<open>dict\<close>.
\<close>

definition h_is_dict :: "heap \<Rightarrow> hval \<Rightarrow> bool" where
  "h_is_dict h v =
     (case v of
        HRef a \<Rightarrow> (case objs h a of HList xs \<Rightarrow> False | HDict d \<Rightarrow> True | HCounter c \<Rightarrow> True)
      | _ \<Rightarrow> False)"

definition h_contains :: "string \<Rightarrow> hval \<Rightarrow> heap \<Rightarrow> error + bool" where
  "h_contains k v h =
     (case v of
        HRef a \<Rightarrow>
          (case objs h a of
             HList xs \<Rightarrow> Inr (HStr k \<in> set xs)
           | HDict d \<Rightarrow> Inr (map_of d k \<noteq> None)
           | HCounter c \<Rightarrow> Inr (PStr k \<in> fst ` set c))
      | HStr s \<Rightarrow> Inr (sublist k s)
      | _ \<Rightarrow> Inl TypeError)"

definition h_getitem :: "hval \<Rightarrow> string \<Rightarrow> heap \<Rightarrow> error + hval" where
  "h_getitem v k h =
     (case v of
        HRef a \<Rightarrow>
          (case objs h a of
             HList xs \<Rightarrow> Inl TypeError
           | HDict d \<Rightarrow> (case map_of d k of None \<Rightarrow> Inl KeyError | Some x \<Rightarrow> Inr x)
           | HCounter c \<Rightarrow> Inr (HInt (int (counter_get c (PStr k)))))
      | _ \<Rightarrow> Inl TypeError)"

definition h_iter :: "hval \<Rightarrow> heap \<Rightarrow> error + hval list" where
  "h_iter v h =
     (case v of
        HRef a \<Rightarrow>
          (case objs h a of
             HList xs \<Rightarrow> Inr xs
           | HDict d \<Rightarrow> Inr (map (\<lambda>kv. HStr (fst kv)) d)
           | HCounter c \<Rightarrow> Inr (map (\<lambda>kn. h_key_of (fst kn)) c))
      | HStr s \<Rightarrow> Inr (map (\<lambda>c. HStr [c]) s)
      | _ \<Rightarrow> Inl TypeError)"

section \<open>\<open>merge_results\<close> on the store\<close>

text \<open>\<open>counter[v] += 1\<close> on the \<open>Counter\<close> at address \<open>c\<close>.\<close>

definition counter_incr_h :: "nat \<Rightarrow> hval \<Rightarrow> unit run" where
  "counter_incr_h c v h =
     (case scalar v of
        None \<Rightarrow> (Inl TypeError, h)
      | Some k \<Rightarrow>
          (case objs h c of
             HCounter cnt \<Rightarrow> (Inr (), store c (HCounter (counter_add k cnt)) h)
           | _ \<Rightarrow> (Inl TypeError, h)))"

text \<open>\<open>collected.extend(v)\<close> on the list at address \<open>l\<close>.\<close>

definition extend_h :: "nat \<Rightarrow> hval \<Rightarrow> unit run" where
  "extend_h l v =
     then_h (read_h (h_iter v)) (\<lambda>xs h.
       case objs h l of
         HList collected \<Rightarrow> (Inr (), store l (HList (collected @ xs)) h)
       | _ \<Rightarrow> (Inl TypeError, h))"

text \<open>\<open>if key in data: counter[data[key]] += 1\<close>.\<close>

definition tally_field_h :: "string \<Rightarrow> hval \<Rightarrow> nat \<Rightarrow> unit run" where
  "tally_field_h key data c =
     then_h (read_h (h_contains key data)) (\<lambda>present.
       if present then then_h (read_h (h_getitem data key)) (\<lambda>v. counter_incr_h c v)
       else return_h ())"

text \<open>\<open>if key in data: collected.extend(data[key])\<close>.\<close>

definition extend_field_h :: "string \<Rightarrow> hval \<Rightarrow> nat \<Rightarrow> unit run" where
  "extend_field_h key data l =
     then_h (read_h (h_contains key data)) (\<lambda>present.
       if present then then_h (read_h (h_getitem data key)) (\<lambda>v. extend_h l v)
       else return_h ())"

text \<open>
  The five statements for one lens; \<open>refs\<close> holds the addresses of the four \<open>Counter\<close>s
  and of the list of \<open>merged_data[lens]\<close>.
\<close>

definition merge_lens_h :: "hval \<Rightarrow> (nat, nat) lens_data \<Rightarrow> unit run" where
  "merge_lens_h data refs =
     then_h (tally_field_h ''name'' data (name refs)) (\<lambda>_.
     then_h (tally_field_h ''dosage'' data (dosage refs)) (\<lambda>_.
     then_h (extend_field_h ''side_effects'' data (side_effects refs)) (\<lambda>_.
     then_h (tally_field_h ''manufacturer'' data (manufacturer refs)) (\<lambda>_.
     tally_field_h ''usage'' data (usage refs)))))"

text \<open>\<open>if "accurate" in result: accurate_data = result["accurate"]; ...\<close>.\<close>

definition merge_key_h :: "string \<Rightarrow> hval \<Rightarrow> (nat, nat) lens_data \<Rightarrow> unit run" where
  "merge_key_h key result refs =
     then_h (read_h (h_contains key result)) (\<lambda>present.
       if present then then_h (read_h (h_getitem result key)) (\<lambda>data. merge_lens_h data refs)
       else return_h ())"

text \<open>One iteration of \<open>for result in results\<close>, and the loop.\<close>

definition merge_result_h :: "hval \<Rightarrow> (nat, nat) lens_data profile \<Rightarrow> unit run" where
  "merge_result_h result refs h =
     (if h_is_dict h result then
        then_h (merge_key_h ''accurate'' result (accurate refs)) (\<lambda>_.
          merge_key_h ''guessed'' result (guessed refs)) h
      else (Inr (), h))"

fun merge_loop_h :: "hval list \<Rightarrow> (nat, nat) lens_data profile \<Rightarrow> unit run" where
  "merge_loop_h [] refs = return_h ()"
| "merge_loop_h (result # results) refs =
     then_h (merge_result_h result refs) (\<lambda>_. merge_loop_h results refs)"

text \<open>
  The dictionary literal \<open>merged_data\<close>: eight new \<open>Counter\<close>s and two new lists.
\<close>

definition new_lens :: "heap \<Rightarrow> (nat, nat) lens_data \<times> heap" where
  "new_lens h =
     (let (n, h) = alloc (HCounter []) h;
          (d, h) = alloc (HCounter []) h;
          (s, h) = alloc (HList []) h;
          (m, h) = alloc (HCounter []) h;
          (u, h) = alloc (HCounter []) h
      in (\<lparr>name = n, dosage = d, side_effects = s, manufacturer = m, usage = u\<rparr>, h))"

definition new_merged_data :: "heap \<Rightarrow> (nat, nat) lens_data profile \<times> heap" where
  "new_merged_data h =
     (let (a, h) = new_lens h; (g, h) = new_lens h in (\<lparr>accurate = a, guessed = g\<rparr>, h))"

text \<open>
  The \<open>return\<close> statement reads the \<open>Counter\<close>s and the lists and builds the returned
  dictionary from them.
\<close>

definition counter_at :: "heap \<Rightarrow> nat \<Rightarrow> counter" where
  "counter_at h c = (case objs h c of HCounter cnt \<Rightarrow> cnt | _ \<Rightarrow> [])"

definition list_at :: "heap \<Rightarrow> nat \<Rightarrow> hval list" where
  "list_at h l = (case objs h l of HList xs \<Rightarrow> xs | _ \<Rightarrow> [])"

definition py_set_h :: "hval list \<Rightarrow> error + pyval set" where
  "py_set_h xs =
     (if list_all (\<lambda>x. scalar x \<noteq> None) xs then py_set (map (\<lambda>x. the (scalar x)) xs)
      else Inl TypeError)"

definition summarise_lens_h ::
  "heap \<Rightarrow> (nat, nat) lens_data \<Rightarrow> error + (pyval, pyval set) lens_data" where
  "summarise_lens_h h refs =
     and_then (top_or_unknown (counter_at h (name refs))) (\<lambda>n.
     and_then (top_or_unknown (counter_at h (dosage refs))) (\<lambda>d.
     and_then (py_set_h (list_at h (side_effects refs))) (\<lambda>s.
     and_then (top_or_unknown (counter_at h (manufacturer refs))) (\<lambda>m.
     and_then (top_or_unknown (counter_at h (usage refs))) (\<lambda>u.
       Inr \<lparr>name = n, dosage = d, side_effects = s, manufacturer = m, usage = u\<rparr>)))))"

definition summarise_h :: "(nat, nat) lens_data profile \<Rightarrow> heap \<Rightarrow> error + medicine" where
  "summarise_h refs h =
     and_then (summarise_lens_h h (accurate refs)) (\<lambda>a.
     and_then (summarise_lens_h h (guessed refs)) (\<lambda>g.
       Inr \<lparr>accurate = a, guessed = g\<rparr>))"

text \<open>
  \<open>merge_results(results)\<close>, \<open>results\<close> being a reference into the store.
\<close>

definition merge_results_h :: "hval \<Rightarrow> medicine run" where
  "merge_results_h results h =
     (let (refs, h) = new_merged_data h in
        then_h (read_h (h_iter results)) (\<lambda>elems.
        then_h (merge_loop_h elems refs) (\<lambda>_.
        read_h (summarise_h refs))) h)"

section \<open>Vocabulary for the statements\<close>

text \<open>
  The two lenses and the four scalar fields, with the dictionary key of each and the
  record field it is stored under.
\<close>

datatype lens = Accurate | Guessed

datatype field = Name | Dosage | Manufacturer | Usage

fun lens_key :: "lens \<Rightarrow> string" where
  "lens_key Accurate = ''accurate''"
| "lens_key Guessed = ''guessed''"

fun field_key :: "field \<Rightarrow> string" where
  "field_key Name = ''name''"
| "field_key Dosage = ''dosage''"
| "field_key Manufacturer = ''manufacturer''"
| "field_key Usage = ''usage''"

fun get_lens :: "lens \<Rightarrow> 'l profile \<Rightarrow> 'l" where
  "get_lens Accurate p = accurate p"
| "get_lens Guessed p = guessed p"

fun get_field :: "field \<Rightarrow> ('c, 's) lens_data \<Rightarrow> 'c" where
  "get_field Name d = name d"
| "get_field Dosage d = dosage d"
| "get_field Manufacturer d = manufacturer d"
| "get_field Usage d = usage d"

text \<open>
  The value stored under a key of a lens, and under a key of a lens of a result, when
  all the dictionaries on the way are there; \<open>None\<close> when the field is absent.
\<close>

fun lens_field :: "string \<Rightarrow> pyval \<Rightarrow> pyval option" where
  "lens_field f (PDict e) = map_of e f"
| "lens_field f v = None"

fun field_of :: "string \<Rightarrow> string \<Rightarrow> pyval \<Rightarrow> pyval option" where
  "field_of l f (PDict d) = (case map_of d l of None \<Rightarrow> None | Some data \<Rightarrow> lens_field f data)"
| "field_of l f v = None"

text \<open>
  The votes for a field: the values of the results in which the field is present, in
  the order of the results. The side effects that a result lists under a lens.
\<close>

fun votes :: "string \<Rightarrow> string \<Rightarrow> pyval list \<Rightarrow> pyval list" where
  "votes l f [] = []"
| "votes l f (r # rs) =
     (case field_of l f r of None \<Rightarrow> votes l f rs | Some v \<Rightarrow> v # votes l f rs)"

definition effects_of :: "string \<Rightarrow> pyval \<Rightarrow> pyval list" where
  "effects_of l r = (case field_of l ''side_effects'' r of Some (PList xs) \<Rightarrow> xs | _ \<Rightarrow> [])"

text \<open>The position of the first occurrence of a value in a list.\<close>

definition first_occurrence :: "'a list \<Rightarrow> 'a \<Rightarrow> nat" where
  "first_occurrence xs x = length (takeWhile (\<lambda>y. y \<noteq> x) xs)"

text \<open>
  An ImageResult of the specification: a dictionary whose lenses, where present, are
  dictionaries in which each scalar field, where present, is a string and
  \<open>side_effects\<close>, where present, is a list of strings. Other keys are not constrained.
\<close>

fun is_str :: "pyval \<Rightarrow> bool" where
  "is_str (PStr s) = True"
| "is_str v = False"

fun is_str_list :: "pyval \<Rightarrow> bool" where
  "is_str_list (PList xs) = list_all is_str xs"
| "is_str_list v = False"

definition absent_or :: "(pyval \<Rightarrow> bool) \<Rightarrow> pyval option \<Rightarrow> bool" where
  "absent_or P x = (case x of None \<Rightarrow> True | Some v \<Rightarrow> P v)"

fun field_guess :: "pyval \<Rightarrow> bool" where
  "field_guess (PDict e) =
     (absent_or is_str (map_of e ''name'') \<and> absent_or is_str (map_of e ''dosage'') \<and>
      absent_or is_str_list (map_of e ''side_effects'') \<and>
      absent_or is_str (map_of e ''manufacturer'') \<and> absent_or is_str (map_of e ''usage''))"
| "field_guess v = False"

fun image_result :: "pyval \<Rightarrow> bool" where
  "image_result (PDict d) =
     (absent_or field_guess (map_of d ''accurate'') \<and> absent_or field_guess (map_of d ''guessed''))"
| "image_result v = False"

section \<open>Values in the store\<close>

text \<open>
  \<open>rep p h n v\<close>: in the store \<open>h\<close> the reference \<open>v\<close> stands for the value \<open>p\<close>, and all
  the objects that make up \<open>p\<close> are at addresses below \<open>n\<close>.
\<close>

fun rep :: "pyval \<Rightarrow> heap \<Rightarrow> nat \<Rightarrow> hval \<Rightarrow> bool" where
  "rep PNone h n v = (v = HNone)"
| "rep (PBool b) h n v = (v = HBool b)"
| "rep (PInt i) h n v = (v = HInt i)"
| "rep (PStr s) h n v = (v = HStr s)"
| "rep (PList ps) h n v =
     (case v of
        HRef a \<Rightarrow>
          a < n \<and> (case objs h a of
                     HList vs \<Rightarrow> list_all2 (\<lambda>p x. rep p h n x) ps vs
                   | _ \<Rightarrow> False)
      | _ \<Rightarrow> False)"
| "rep (PDict d) h n v =
     (case v of
        HRef a \<Rightarrow>
          a < n \<and> (case objs h a of
                     HDict kvs \<Rightarrow>
                       list_all2 (\<lambda>kp kv. fst kp = fst kv \<and> rep (snd kp) h n (snd kv)) d kvs
                   | _ \<Rightarrow> False)
      | _ \<Rightarrow> False)"

section \<open>Auxiliary functions of the proofs\<close>

text \<open>Adding the vote of one result, if it casts one.\<close>

fun add_vote :: "pyval option \<Rightarrow> counter \<Rightarrow> counter" where
  "add_vote None c = c"
| "add_vote (Some v) c = counter_add v c"

text \<open>The distinct elements of a list in the order of their first occurrences.\<close>

definition first_seen :: "'a list \<Rightarrow> 'a list" where
  "first_seen xs = rev (remdups (rev xs))"

section \<open>Auxiliary notions of the proofs about the store\<close>

text \<open>
  A run that allocates nothing and leaves every object outside a set of addresses as it
  was.
\<close>

definition unchanged_outside :: "nat set \<Rightarrow> heap \<Rightarrow> heap \<Rightarrow> bool" where
  "unchanged_outside A h h' \<longleftrightarrow>
     next_free h' = next_free h \<and> (\<forall>a. a \<notin> A \<longrightarrow> objs h' a = objs h a)"

text \<open>The addresses of the accumulators.\<close>

definition lens_addrs :: "(nat, nat) lens_data \<Rightarrow> nat set" where
  "lens_addrs refs = {name refs, dosage refs, side_effects refs, manufacturer refs, usage refs}"

definition all_addrs :: "(nat, nat) lens_data profile \<Rightarrow> nat set" where
  "all_addrs refs = lens_addrs (accurate refs) \<union> lens_addrs (guessed refs)"

text \<open>
  A run on the store and an outcome of the functional model agree: the same exception,
  or a normal end in a store related to the value computed.
\<close>

definition run_rel :: "(heap \<Rightarrow> 'b \<Rightarrow> bool) \<Rightarrow> (error + unit) \<times> heap \<Rightarrow> error + 'b \<Rightarrow> bool" where
  "run_rel Q rh res =
     (case res of Inl e \<Rightarrow> fst rh = Inl e | Inr y \<Rightarrow> fst rh = Inr () \<and> Q (snd rh) y)"

text \<open>
  The accumulators in the store hold what the functional model accumulates: they are
  distinct objects at addresses from \<open>n\<close> on.
\<close>

definition lens_rel ::
  "nat \<Rightarrow> heap \<Rightarrow> (nat, nat) lens_data \<Rightarrow> (counter, pyval list) lens_data \<Rightarrow> bool" where
  "lens_rel n h refs acc \<longleftrightarrow>
     distinct [name refs, dosage refs, side_effects refs, manufacturer refs, usage refs] \<and>
     (\<forall>a\<in>lens_addrs refs. n \<le> a) \<and>
     objs h (name refs) = HCounter (name acc) \<and>
     objs h (dosage refs) = HCounter (dosage acc) \<and>
     objs h (manufacturer refs) = HCounter (manufacturer acc) \<and>
     objs h (usage refs) = HCounter (usage acc) \<and>
     (\<exists>xs. objs h (side_effects refs) = HList xs \<and>
           list_all2 (\<lambda>x q. rep q h n x) xs (side_effects acc))"

definition acc_rel ::
  "nat \<Rightarrow> heap \<Rightarrow> (nat, nat) lens_data profile \<Rightarrow> merged_data \<Rightarrow> bool" where
  "acc_rel n h refs acc \<longleftrightarrow>
     lens_rel n h (accurate refs) (accurate acc) \<and>
     lens_rel n h (guessed refs) (guessed acc) \<and>
     lens_addrs (accurate refs) \<inter> lens_addrs (guessed refs) = {}"

section \<open>Example inputs\<close>

text \<open>
  \<open>[{"accurate": {"name": "A"}}, {"accurate": {"name": "B"}}]\<close>: one vote each for two
  names.
\<close>

definition ex_A_B :: "pyval list" where
  "ex_A_B = [PDict [(''accurate'', PDict [(''name'', PStr ''A'')])],
             PDict [(''accurate'', PDict [(''name'', PStr ''B'')])]]"

text \<open>
  Three results voting \<open>"500mg"\<close>, \<open>"500mg"\<close>, \<open>"250mg"\<close> for \<open>accurate.dosage\<close>.
\<close>

definition ex_dosage :: "pyval list" where
  "ex_dosage = [PDict [(''accurate'', PDict [(''dosage'', PStr ''500mg'')])],
                PDict [(''accurate'', PDict [(''dosage'', PStr ''500mg'')])],
                PDict [(''accurate'', PDict [(''dosage'', PStr ''250mg'')])]]"

text \<open>
  \<open>[{"accurate": {"side_effects": ["nausea"]}},
  {"accurate": {"side_effects": ["nausea", "rash"]}}]\<close>.
\<close>

definition ex_side_effects :: "pyval list" where
  "ex_side_effects =
     [PDict [(''accurate'', PDict [(''side_effects'', PList [PStr ''nausea''])])],
      PDict [(''accurate'', PDict [(''side_effects'', PList [PStr ''nausea'', PStr ''rash''])])]]"

text \<open>
  An \<open>analyze_image\<close> that fails to parse the answer for file 0 and returns a result with
  a name for every other file.
\<close>

definition ex_analyze :: "nat \<Rightarrow> error + pyval" where
  "ex_analyze file =
     Inr (if file = 0 then PDict [(''error'', PStr ''Invalid AI response'')]
          else PDict [(''accurate'', PDict [(''name'', PStr ''A'')])])"

text \<open>
  \<open>[{"accurate": {"name": "A", "side_effects": ["nausea"]}}, {"accurate": {"name": "B"}}]\<close>
  as a value, and a store that holds it: the list at address 0, the dictionaries at
  addresses 1 to 4, the list of side effects at address 5.
\<close>

definition ex_results :: "pyval list" where
  "ex_results =
     [PDict [(''accurate'', PDict [(''name'', PStr ''A''),
                                   (''side_effects'', PList [PStr ''nausea''])])],
      PDict [(''accurate'', PDict [(''name'', PStr ''B'')])]]"

definition ex_heap :: heap where
  "ex_heap =
     \<lparr>objs = (\<lambda>a. HList [])
        (0 := HList [HRef 1, HRef 3],
         1 := HDict [(''accurate'', HRef 2)],
         2 := HDict [(''name'', HStr ''A''), (''side_effects'', HRef 5)],
         3 := HDict [(''accurate'', HRef 4)],
         4 := HDict [(''name'', HStr ''B'')],
         5 := HList [HStr ''nausea'']),
      next_free = 6\<rparr>"

section \<open>The loop tallies the votes\<close>

lemma merge_result_non_dict: "\<not> is_dict r \<Longrightarrow> merge_result r acc = Inr acc"
  by (cases r) (simp_all add: merge_result_def)

lemma tally_field_Inr:
  assumes "tally_field k data c = Inr c'"
  shows "c' = add_vote (lens_field k data) c"
  using assms
  by (cases data)
     (auto simp: tally_field_def and_then_def counter_incr_def split: if_splits option.splits)

lemma merge_lens_Inr:
  assumes "merge_lens data acc = Inr acc'"
  shows "name acc' = add_vote (lens_field ''name'' data) (name acc)"
    and "dosage acc' = add_vote (lens_field ''dosage'' data) (dosage acc)"
    and "manufacturer acc' = add_vote (lens_field ''manufacturer'' data) (manufacturer acc)"
    and "usage acc' = add_vote (lens_field ''usage'' data) (usage acc)"
  using assms
  by (auto simp: merge_lens_def and_then_def split: sum.splits dest!: tally_field_Inr)

lemma merge_lens_field:
  assumes "merge_lens data acc = Inr acc'"
  shows "get_field f acc' = add_vote (lens_field (field_key f) data) (get_field f acc)"
  using merge_lens_Inr [OF assms] by (cases f) simp_all

lemma merge_result_field:
  assumes "merge_result r acc = Inr acc'"
  shows "get_field f (get_lens l acc') =
           add_vote (field_of (lens_key l) (field_key f) r) (get_field f (get_lens l acc))"
proof (cases r)
  case (PDict d)
  from assms PDict obtain a g where
    a: "(case map_of d ''accurate'' of None \<Rightarrow> Inr (accurate acc)
         | Some data \<Rightarrow> merge_lens data (accurate acc)) = Inr a"
    and g: "(case map_of d ''guessed'' of None \<Rightarrow> Inr (guessed acc)
         | Some data \<Rightarrow> merge_lens data (guessed acc)) = Inr g"
    and acc': "acc' = \<lparr>accurate = a, guessed = g\<rparr>"
    by (auto simp: merge_result_def and_then_def split: sum.splits)
  show ?thesis
  proof (cases l)
    case Accurate
    with a acc' PDict show ?thesis
      by (auto split: option.splits dest: merge_lens_field)
  next
    case Guessed
    with g acc' PDict show ?thesis
      by (auto split: option.splits dest: merge_lens_field)
  qed
qed (use assms in \<open>simp_all add: merge_result_def\<close>)

lemma fold_add_vote:
  "fold counter_add (votes l f rs) (add_vote (field_of l f r) c) = fold counter_add (votes l f (r # rs)) c"
  by (simp split: option.splits)

lemma merge_loop_field:
  assumes "merge_loop rs acc = Inr acc'"
  shows "get_field f (get_lens l acc') =
           fold counter_add (votes (lens_key l) (field_key f) rs) (get_field f (get_lens l acc))"
  using assms
proof (induction rs arbitrary: acc)
  case Nil
  then show ?case by simp
next
  case (Cons r rs)
  from Cons.prems obtain mid where
    mid: "merge_result r acc = Inr mid" and rest: "merge_loop rs mid = Inr acc'"
    by (auto simp: and_then_def split: sum.splits)
  show ?case
    using Cons.IH [OF rest] merge_result_field [OF mid, of f l]
    by (simp split: option.splits)
qed

section \<open>Counters built from votes\<close>

lemma first_seen_snoc:
  "first_seen (xs @ [x]) = (if x \<in> set xs then first_seen xs else first_seen xs @ [x])"
  by (simp add: first_seen_def)

lemma set_first_seen: "set (first_seen xs) = set xs"
  by (simp add: first_seen_def)

lemma distinct_first_seen: "distinct (first_seen xs)"
  by (simp add: first_seen_def)

lemma remdups_append_filter:
  "remdups (xs @ ys) = remdups (filter (\<lambda>x. x \<notin> set ys) xs) @ remdups ys"
  by (induction xs) auto

lemma first_seen_append:
  "first_seen (xs @ ys) = first_seen xs @ filter (\<lambda>y. y \<notin> set xs) (first_seen ys)"
  by (simp add: first_seen_def remdups_append_filter remdups_filter rev_filter)

lemma first_seen_split:
  assumes "v \<notin> set pre"
  shows "first_seen (pre @ v # post) =
           first_seen pre @ v # filter (\<lambda>y. y \<notin> set pre \<and> y \<noteq> v) (first_seen post)"
proof -
  have "first_seen (v # post) = v # filter (\<lambda>y. y \<noteq> v) (first_seen post)"
    using first_seen_append [of "[v]" post] by (simp add: first_seen_def)
  then show ?thesis
    using assms by (simp add: first_seen_append [of pre] conj_commute)
qed

lemma counter_add_plain:
  assumes "distinct ks" and "\<forall>k\<in>set ks. py_key k = k" and "py_key v = v"
  shows "counter_add v (map (\<lambda>k. (k, g k)) ks) =
           (if v \<in> set ks then map (\<lambda>k. (k, if k = v then Suc (g k) else g k)) ks
            else map (\<lambda>k. (k, g k)) ks @ [(v, 1)])"
  using assms by (induction ks) auto

lemma fold_snoc: "fold f (xs @ [x]) a = f x (fold f xs a)"
  by simp

lemma tally_closed_form:
  assumes "\<forall>v\<in>set vs. py_key v = v"
  shows "fold counter_add vs [] = map (\<lambda>k. (k, count_list vs k)) (first_seen vs)"
  using assms
proof (induction vs rule: rev_induct)
  case Nil
  show ?case by (simp add: first_seen_def)
next
  case (snoc v vs)
  then have IH: "fold counter_add vs [] = map (\<lambda>k. (k, count_list vs k)) (first_seen vs)"
    and plain: "\<forall>k\<in>set (first_seen vs). py_key k = k" and v: "py_key v = v"
    by (simp_all add: set_first_seen)
  have "fold counter_add (vs @ [v]) [] =
          counter_add v (map (\<lambda>k. (k, count_list vs k)) (first_seen vs))"
    by (simp add: IH)
  also have "\<dots> = map (\<lambda>k. (k, count_list (vs @ [v]) k)) (first_seen (vs @ [v]))"
    by (auto simp: counter_add_plain [OF distinct_first_seen plain v] first_seen_snoc
        set_first_seen)
  finally show ?case .
qed

lemma max_by_count_split:
  "(max_by_count best xs = best \<and> (\<forall>e\<in>set xs. snd e \<le> snd best)) \<or>
   (\<exists>pre post. xs = pre @ max_by_count best xs # post \<and>
      snd best < snd (max_by_count best xs) \<and>
      (\<forall>e\<in>set pre. snd e < snd (max_by_count best xs)) \<and>
      (\<forall>e\<in>set post. snd e \<le> snd (max_by_count best xs)))"
proof (induction xs arbitrary: best)
  case Nil
  show ?case by simp
next
  case (Cons x xs)
  show ?case
  proof (cases "snd best < snd x")
    case True
    from Cons.IH [of x] show ?thesis
    proof (elim disjE conjE exE)
      assume "max_by_count x xs = x" "\<forall>e\<in>set xs. snd e \<le> snd x"
      with True have "x # xs = [] @ max_by_count best (x # xs) # xs \<and>
        snd best < snd (max_by_count best (x # xs)) \<and>
        (\<forall>e\<in>set []. snd e < snd (max_by_count best (x # xs))) \<and>
        (\<forall>e\<in>set xs. snd e \<le> snd (max_by_count best (x # xs)))"
        by simp
      then show ?thesis by blast
    next
      fix pre post
      assume "xs = pre @ max_by_count x xs # post" "snd x < snd (max_by_count x xs)"
        "\<forall>e\<in>set pre. snd e < snd (max_by_count x xs)"
        "\<forall>e\<in>set post. snd e \<le> snd (max_by_count x xs)"
      with True have "x # xs = (x # pre) @ max_by_count best (x # xs) # post \<and>
        snd best < snd (max_by_count best (x # xs)) \<and>
        (\<forall>e\<in>set (x # pre). snd e < snd (max_by_count best (x # xs))) \<and>
        (\<forall>e\<in>set post. snd e \<le> snd (max_by_count best (x # xs)))"
        by auto
      then show ?thesis by blast
    qed
  next
    case False
    from Cons.IH [of best] show ?thesis
    proof (elim disjE conjE exE)
      assume "max_by_count best xs = best" "\<forall>e\<in>set xs. snd e \<le> snd best"
      with False show ?thesis by auto
    next
      fix pre post
      assume "xs = pre @ max_by_count best xs # post" "snd best < snd (max_by_count best xs)"
        "\<forall>e\<in>set pre. snd e < snd (max_by_count best xs)"
        "\<forall>e\<in>set post. snd e \<le> snd (max_by_count best xs)"
      with False have "x # xs = (x # pre) @ max_by_count best (x # xs) # post \<and>
        snd best < snd (max_by_count best (x # xs)) \<and>
        (\<forall>e\<in>set (x # pre). snd e < snd (max_by_count best (x # xs))) \<and>
        (\<forall>e\<in>set post. snd e \<le> snd (max_by_count best (x # xs)))"
        by auto
      then show ?thesis by blast
    qed
  qed
qed

lemma most_common_1_split:
  assumes "c \<noteq> []"
  shows "\<exists>m pre post. most_common_1 c = [m] \<and> c = pre @ m # post \<and>
           (\<forall>e\<in>set pre. snd e < snd m) \<and> (\<forall>e\<in>set post. snd e \<le> snd m)"
proof -
  from assms obtain x xs where c: "c = x # xs" by (cases c) auto
  let ?m = "max_by_count x xs"
  from max_by_count_split [of x xs] show ?thesis
  proof (elim disjE conjE exE)
    assume "?m = x" "\<forall>e\<in>set xs. snd e \<le> snd x"
    then have "most_common_1 c = [?m] \<and> c = [] @ ?m # xs \<and>
      (\<forall>e\<in>set []. snd e < snd ?m) \<and> (\<forall>e\<in>set xs. snd e \<le> snd ?m)"
      by (simp add: c most_common_1_def)
    then show ?thesis by blast
  next
    fix pre post
    assume "xs = pre @ ?m # post" "snd x < snd ?m" "\<forall>e\<in>set pre. snd e < snd ?m"
      "\<forall>e\<in>set post. snd e \<le> snd ?m"
    then have "most_common_1 c = [?m] \<and> c = (x # pre) @ ?m # post \<and>
      (\<forall>e\<in>set (x # pre). snd e < snd ?m) \<and> (\<forall>e\<in>set post. snd e \<le> snd ?m)"
      by (auto simp: c most_common_1_def)
    then show ?thesis by blast
  qed
qed


lemma takeWhile_neq_split: "v \<notin> set a \<Longrightarrow> takeWhile (\<lambda>y. y \<noteq> v) (a @ v # b) = a"
  by (induction a) auto

lemma distinct_split_unique:
  assumes "distinct (a @ v # b)" and "a @ v # b = a' @ v # b'"
  shows "a = a'"
proof -
  from assms have "distinct (a' @ v # b')" by simp
  with assms(1) have "v \<notin> set a" and "v \<notin> set a'" by auto
  then have "takeWhile (\<lambda>y. y \<noteq> v) (a @ v # b) = a"
    and "takeWhile (\<lambda>y. y \<noteq> v) (a' @ v # b') = a'"
    by (simp_all add: takeWhile_neq_split)
  with assms(2) show ?thesis by simp
qed

lemma split_at_first: "v \<in> set vs \<Longrightarrow> vs = takeWhile (\<lambda>y. y \<noteq> v) vs @ v # tl (dropWhile (\<lambda>y. y \<noteq> v) vs)"
  by (induction vs) auto

lemma top_of_tally:
  assumes plain: "\<forall>v\<in>set vs. py_key v = v" and ne: "vs \<noteq> []"
  shows "\<exists>v. top_or_unknown (fold counter_add vs []) = Inr v \<and> v \<in> set vs \<and>
           (\<forall>w. count_list vs w \<le> count_list vs v) \<and>
           (\<forall>w\<in>set (takeWhile (\<lambda>y. y \<noteq> v) vs). count_list vs w < count_list vs v)"
proof -
  let ?cnt = "count_list vs"
  let ?ks = "first_seen vs"
  let ?c = "fold counter_add vs []"
  have c: "?c = map (\<lambda>k. (k, ?cnt k)) ?ks"
    by (rule tally_closed_form [OF plain])
  have keys: "map fst ?c = ?ks"
    by (simp add: c comp_def)
  have entry: "e = (fst e, ?cnt (fst e))" if "e \<in> set ?c" for e
    using that by (auto simp: c)
  from ne have "set ?ks \<noteq> {}" by (simp add: set_first_seen)
  then have cne: "?c \<noteq> []" by (simp add: c)
  from most_common_1_split [OF cne] obtain m pre post where
    top: "most_common_1 ?c = [m]" and split: "?c = pre @ m # post"
    and before: "\<forall>e\<in>set pre. snd e < snd m" and after: "\<forall>e\<in>set post. snd e \<le> snd m"
    by blast
  define v where "v = fst m"
  have "m \<in> set ?c" by (subst split) simp
  then have m: "m = (v, ?cnt v)" unfolding v_def by (rule entry)
  have res: "top_or_unknown ?c = Inr v"
    using cne top by (simp add: top_or_unknown_def v_def)
  have "v \<in> set (map fst ?c)" by (subst split) (simp add: v_def)
  then have v_in: "v \<in> set vs" by (simp add: keys set_first_seen)
  have maxi: "?cnt w \<le> ?cnt v" for w
  proof (cases "w \<in> set vs")
    case True
    then have "(w, ?cnt w) \<in> set ?c" by (simp add: c set_first_seen)
    then have "(w, ?cnt w) \<in> set pre \<or> (w, ?cnt w) = m \<or> (w, ?cnt w) \<in> set post"
      by (subst (asm) split) auto
    with before after m show ?thesis by auto
  next
    case False
    then show ?thesis by simp
  qed
  let ?tw = "takeWhile (\<lambda>y. y \<noteq> v) vs"
  have "v \<notin> set ?tw" by (auto dest: set_takeWhileD)
  then have "first_seen (?tw @ v # tl (dropWhile (\<lambda>y. y \<noteq> v) vs)) =
      first_seen ?tw @ v # filter (\<lambda>y. y \<notin> set ?tw \<and> y \<noteq> v)
        (first_seen (tl (dropWhile (\<lambda>y. y \<noteq> v) vs)))"
    by (rule first_seen_split)
  with split_at_first [OF v_in] have ks1: "?ks = first_seen ?tw @ v # filter (\<lambda>y. y \<notin> set ?tw \<and> y \<noteq> v)
        (first_seen (tl (dropWhile (\<lambda>y. y \<noteq> v) vs)))"
    by simp
  have ks2: "?ks = map fst pre @ v # map fst post"
    using keys by (subst (asm) split) (simp add: v_def)
  have "distinct (map fst pre @ v # map fst post)"
    using distinct_first_seen [of vs] by (simp only: ks2)
  then have pre_keys: "map fst pre = first_seen ?tw"
    using ks1 ks2 by (metis distinct_split_unique)
  have early: "?cnt w < ?cnt v" if "w \<in> set ?tw" for w
  proof -
    from that have "w \<in> set (map fst pre)" by (simp add: pre_keys set_first_seen)
    then obtain e where e: "e \<in> set pre" and w: "w = fst e" by auto
    from e have "e \<in> set ?c" by (subst split) simp
    then have "e = (w, ?cnt w)" unfolding w by (rule entry)
    with before e m show ?thesis by auto
  qed
  from res v_in maxi early show ?thesis by blast
qed

lemma first_occurrence_le:
  assumes "w \<notin> set (takeWhile (\<lambda>y. y \<noteq> v) vs)"
  shows "first_occurrence vs v \<le> first_occurrence vs w"
proof -
  let ?tw = "takeWhile (\<lambda>y. y \<noteq> v) vs"
  have "takeWhile (\<lambda>y. y \<noteq> w) (?tw @ dropWhile (\<lambda>y. y \<noteq> v) vs) =
          ?tw @ takeWhile (\<lambda>y. y \<noteq> w) (dropWhile (\<lambda>y. y \<noteq> v) vs)"
    using assms by (intro takeWhile_append2) auto
  then have "length ?tw \<le> length (takeWhile (\<lambda>y. y \<noteq> w) vs)"
    by simp
  then show ?thesis by (simp add: first_occurrence_def)
qed

lemma top_membership:
  assumes "c \<noteq> []" shows "\<exists>v. top_or_unknown c = Inr v \<and> v \<in> fst ` set c"
proof -
  from most_common_1_split [OF assms] obtain m pre post where
    "most_common_1 c = [m]" and "c = pre @ m # post" by blast
  then have "top_or_unknown c = Inr (fst m)" and "m \<in> set c"
    using assms by (simp_all add: top_or_unknown_def)
  then show ?thesis by blast
qed

lemma top_or_unknown_total: "\<exists>v. top_or_unknown c = Inr v"
  using top_membership [of c] by (cases "c = []") (auto simp: top_or_unknown_def)

lemma keys_counter_add: "fst ` set (counter_add v c) \<subseteq> insert v (fst ` set c)"
proof (induction c)
  case Nil
  show ?case by simp
next
  case (Cons x c)
  obtain k n where x: "x = (k, n)" by (cases x)
  show ?case
  proof (cases "py_key v = py_key k")
    case True
    then show ?thesis by (auto simp: x)
  next
    case False
    then have "fst ` set (counter_add v (x # c)) = insert k (fst ` set (counter_add v c))"
      by (simp add: x)
    with Cons.IH show ?thesis by (auto simp: x)
  qed
qed


lemma counter_add_not_Nil: "counter_add v c \<noteq> []"
  by (cases c) (auto split: if_splits)

lemma keys_tally: "fst ` set (fold counter_add vs c) \<subseteq> set vs \<union> fst ` set c"
proof (induction vs arbitrary: c)
  case Nil
  show ?case by simp
next
  case (Cons v vs)
  from Cons.IH [of "counter_add v c"] keys_counter_add [of v c] show ?case by auto
qed

lemma tally_Nil_iff: "fold counter_add vs c = [] \<longleftrightarrow> vs = [] \<and> c = []"
  by (induction vs arbitrary: c) (simp_all add: counter_add_not_Nil)

section \<open>From the tallies to the returned record\<close>

lemma summarise_lens_Inr:
  assumes "summarise_lens a = Inr out"
  shows "top_or_unknown (get_field f a) = Inr (get_field f out)"
    and "py_set (side_effects a) = Inr (side_effects out)"
  using assms
  by (cases f; auto simp: summarise_lens_def and_then_def split: sum.splits)+

lemma summarise_Inr:
  assumes "summarise acc = Inr out"
  shows "top_or_unknown (get_field f (get_lens l acc)) = Inr (get_field f (get_lens l out))"
    and "py_set (side_effects (get_lens l acc)) = Inr (side_effects (get_lens l out))"
proof -
  from assms obtain a g where a: "summarise_lens (accurate acc) = Inr a"
    and g: "summarise_lens (guessed acc) = Inr g" and out: "out = \<lparr>accurate = a, guessed = g\<rparr>"
    by (auto simp: summarise_def and_then_def split: sum.splits)
  show "top_or_unknown (get_field f (get_lens l acc)) = Inr (get_field f (get_lens l out))"
    using summarise_lens_Inr(1) [OF a] summarise_lens_Inr(1) [OF g] by (cases l) (simp_all add: out)
  show "py_set (side_effects (get_lens l acc)) = Inr (side_effects (get_lens l out))"
    using summarise_lens_Inr(2) [OF a] summarise_lens_Inr(2) [OF g] by (cases l) (simp_all add: out)
qed

lemma get_field_empty: "get_field f (get_lens l empty_merged) = []"
  by (cases l; cases f) (simp_all add: empty_merged_def empty_lens_def)

lemma side_effects_empty: "side_effects (get_lens l empty_merged) = []"
  by (cases l) (simp_all add: empty_merged_def empty_lens_def)

lemma merge_results_field:
  assumes "merge_results rs = Inr out"
  shows "top_or_unknown (fold counter_add (votes (lens_key l) (field_key f) rs) []) =
           Inr (get_field f (get_lens l out))"
proof -
  from assms obtain acc where loop: "merge_loop rs empty_merged = Inr acc"
    and sum: "summarise acc = Inr out"
    by (auto simp: merge_results_def and_then_def split: sum.splits)
  show ?thesis
    using merge_loop_field [OF loop, of f l] summarise_Inr(1) [OF sum, of f l]
    by (simp add: get_field_empty)
qed

lemma summarise_lens_total:
  assumes "list_all hashable (side_effects a)"
  shows "\<exists>out. summarise_lens a = Inr out"
proof -
  obtain n d m u where "top_or_unknown (name a) = Inr n" "top_or_unknown (dosage a) = Inr d"
    "top_or_unknown (manufacturer a) = Inr m" "top_or_unknown (usage a) = Inr u"
    using top_or_unknown_total by metis
  with assms show ?thesis
    by (simp add: summarise_lens_def and_then_def py_set_def)
qed

lemma summarise_total:
  assumes "\<And>l. list_all hashable (side_effects (get_lens l acc))"
  shows "\<exists>out. summarise acc = Inr out"
proof -
  from assms [of Accurate] assms [of Guessed] obtain a g where
    "summarise_lens (accurate acc) = Inr a" "summarise_lens (guessed acc) = Inr g"
    using summarise_lens_total by (metis get_lens.simps)
  then show ?thesis by (simp add: summarise_def and_then_def)
qed

section \<open>Results of the shape the specification describes\<close>

lemma tally_field_wf:
  assumes "absent_or is_str (map_of e k)"
  shows "tally_field k (PDict e) c = Inr (add_vote (map_of e k) c)"
proof (cases "map_of e k")
  case None
  then show ?thesis by (simp add: tally_field_def and_then_def)
next
  case (Some v)
  with assms obtain s where "v = PStr s" by (cases v) (simp_all add: absent_or_def)
  with Some show ?thesis by (simp add: tally_field_def and_then_def counter_incr_def)
qed

lemma extend_field_wf:
  assumes "absent_or is_str_list (map_of e k)"
  shows "extend_field k (PDict e) xs =
           Inr (xs @ (case map_of e k of Some (PList ys) \<Rightarrow> ys | _ \<Rightarrow> []))"
proof (cases "map_of e k")
  case None
  then show ?thesis by (simp add: extend_field_def and_then_def)
next
  case (Some v)
  with assms obtain ys where "v = PList ys" by (cases v) (simp_all add: absent_or_def)
  with Some show ?thesis by (simp add: extend_field_def and_then_def)
qed

lemma merge_lens_wf:
  assumes "field_guess data"
  shows "\<exists>acc'. merge_lens data acc = Inr acc' \<and>
           side_effects acc' = side_effects acc @
             (case lens_field ''side_effects'' data of Some (PList ys) \<Rightarrow> ys | _ \<Rightarrow> [])"
proof -
  from assms obtain e where data: "data = PDict e" by (cases data) simp_all
  with assms show ?thesis
    by (simp add: merge_lens_def tally_field_wf extend_field_wf and_then_def)
qed

lemma merge_result_wf:
  assumes "image_result r"
  shows "\<exists>acc'. merge_result r acc = Inr acc' \<and>
           (\<forall>l. side_effects (get_lens l acc') =
                  side_effects (get_lens l acc) @ effects_of (lens_key l) r)"
proof -
  from assms obtain d where r: "r = PDict d" by (cases r) simp_all
  have "\<exists>a. (case map_of d k of None \<Rightarrow> Inr acc0 | Some data \<Rightarrow> merge_lens data acc0) = Inr a \<and>
          side_effects a = side_effects acc0 @ effects_of k r"
    if "absent_or field_guess (map_of d k)" for k acc0
  proof (cases "map_of d k")
    case None
    then show ?thesis by (simp add: r effects_of_def)
  next
    case (Some data)
    with that have "field_guess data" by (simp add: absent_or_def)
    from merge_lens_wf [OF this, of acc0] Some show ?thesis
      by (auto simp: r effects_of_def)
  qed
  from this [of "''accurate''" "accurate acc"] this [of "''guessed''" "guessed acc"] assms
  obtain a g where
    a: "(case map_of d ''accurate'' of None \<Rightarrow> Inr (accurate acc)
         | Some data \<Rightarrow> merge_lens data (accurate acc)) = Inr a"
    and ea: "side_effects a = side_effects (accurate acc) @ effects_of ''accurate'' r"
    and g: "(case map_of d ''guessed'' of None \<Rightarrow> Inr (guessed acc)
         | Some data \<Rightarrow> merge_lens data (guessed acc)) = Inr g"
    and eg: "side_effects g = side_effects (guessed acc) @ effects_of ''guessed'' r"
    by (auto simp: r)
  have run: "merge_result r acc = Inr \<lparr>accurate = a, guessed = g\<rparr>"
    by (simp add: r merge_result_def and_then_def a g)
  have "side_effects (get_lens l \<lparr>accurate = a, guessed = g\<rparr>) =
          side_effects (get_lens l acc) @ effects_of (lens_key l) r" for l
    by (cases l) (simp_all add: ea eg)
  with run show ?thesis by blast
qed

lemma merge_loop_wf:
  assumes "list_all image_result rs"
  shows "\<exists>acc'. merge_loop rs acc = Inr acc' \<and>
           (\<forall>l. side_effects (get_lens l acc') =
                  side_effects (get_lens l acc) @ concat (map (effects_of (lens_key l)) rs))"
  using assms
proof (induction rs arbitrary: acc)
  case Nil
  show ?case by simp
next
  case (Cons r rs)
  then have r: "image_result r" and rs: "list_all image_result rs" by simp_all
  from merge_result_wf [OF r, of acc] obtain mid where
    mid: "merge_result r acc = Inr mid"
    and emid: "\<And>l. side_effects (get_lens l mid) =
                  side_effects (get_lens l acc) @ effects_of (lens_key l) r"
    by blast
  from Cons.IH [OF rs, of mid] obtain acc' where
    acc': "merge_loop rs mid = Inr acc'"
    and eacc: "\<And>l. side_effects (get_lens l acc') =
                  side_effects (get_lens l mid) @ concat (map (effects_of (lens_key l)) rs)"
    by blast
  have "merge_loop (r # rs) acc = Inr acc'"
    by (simp add: and_then_def mid acc')
  moreover have "side_effects (get_lens l acc') =
      side_effects (get_lens l acc) @ concat (map (effects_of (lens_key l)) (r # rs))" for l
    by (simp add: eacc emid)
  ultimately show ?case by blast
qed

lemma vote_is_str:
  assumes "image_result r" and "field_of (lens_key l) (field_key f) r = Some v"
  shows "is_str v"
proof -
  from assms(1) obtain d where r: "r = PDict d" by (cases r) simp_all
  from assms(2) obtain data where data: "map_of d (lens_key l) = Some data"
    and v: "lens_field (field_key f) data = Some v"
    by (auto simp: r split: option.splits)
  from assms(1) data have "field_guess data"
    by (cases l) (simp_all add: r absent_or_def)
  then obtain e where e: "data = PDict e" by (cases data) simp_all
  with \<open>field_guess data\<close> v show ?thesis
    by (cases f) (simp_all add: absent_or_def)
qed

lemma votes_are_str:
  assumes "list_all image_result rs"
  shows "\<forall>v\<in>set (votes (lens_key l) (field_key f) rs). is_str v"
  using assms
  by (induction rs) (auto split: option.splits dest: vote_is_str)

lemma is_str_plain: "is_str v \<Longrightarrow> py_key v = v"
  by (cases v) simp_all

lemma is_str_hashable: "is_str v \<Longrightarrow> hashable v"
  by (cases v) simp_all

lemma effects_are_str:
  assumes "image_result r"
  shows "list_all is_str (effects_of (lens_key l) r)"
proof -
  from assms obtain d where r: "r = PDict d" by (cases r) simp_all
  show ?thesis
  proof (cases "map_of d (lens_key l)")
    case None
    then show ?thesis by (simp add: r effects_of_def)
  next
    case (Some data)
    with assms have "field_guess data"
      by (cases l) (simp_all add: r absent_or_def)
    then obtain e where e: "data = PDict e" by (cases data) simp_all
    with \<open>field_guess data\<close> have "absent_or is_str_list (map_of e ''side_effects'')" by simp
    then show ?thesis
      by (cases "map_of e ''side_effects''")
        (auto simp: r e Some effects_of_def absent_or_def split: pyval.splits)
  qed
qed

lemma set_add_plain:
  assumes "\<forall>x\<in>set xs. py_key x = x" and "\<forall>x\<in>set s. py_key x = x"
  shows "set (fold set_add xs s) = set s \<union> set xs"
  using assms
proof (induction xs arbitrary: s)
  case Nil
  show ?case by simp
next
  case (Cons x xs)
  then have x: "py_key x = x" and s: "py_key ` set s = set s" by (simp, force)
  have step: "set (set_add x s) = insert x (set s)"
    by (auto simp: set_add_def x s)
  have "\<forall>y\<in>set (set_add x s). py_key y = y"
    using Cons.prems by (simp add: step)
  with Cons.IH [of "set_add x s"] Cons.prems show ?case
    by (simp add: step)
qed

lemma py_set_strings:
  assumes "list_all is_str xs"
  shows "py_set xs = Inr (set xs)"
proof -
  from assms have "list_all hashable xs" and "\<forall>x\<in>set xs. py_key x = x"
    by (auto simp: list_all_iff is_str_plain is_str_hashable)
  then show ?thesis
    using set_add_plain [of xs "[]"] by (simp add: py_set_def)
qed

lemma merge_results_total:
  assumes "list_all image_result rs"
  shows "\<exists>out. merge_results rs = Inr out \<and>
           (\<forall>l. side_effects (get_lens l out) =
                  (\<Union>r\<in>set rs. set (effects_of (lens_key l) r)))"
proof -
  from merge_loop_wf [OF assms, of empty_merged] obtain acc where
    loop: "merge_loop rs empty_merged = Inr acc"
    and eff: "\<And>l. side_effects (get_lens l acc) = concat (map (effects_of (lens_key l)) rs)"
    by (auto simp: side_effects_empty)
  have strs: "list_all is_str (side_effects (get_lens l acc))" for l
    using assms effects_are_str [of _ l] by (auto simp: eff list_all_iff)
  then have "list_all hashable (side_effects (get_lens l acc))" for l
    using is_str_hashable by (auto simp: list_all_iff)
  from summarise_total [of acc, OF this] obtain out where out: "summarise acc = Inr out"
    by blast
  have "side_effects (get_lens l out) = (\<Union>r\<in>set rs. set (effects_of (lens_key l) r))" for l
    using summarise_Inr(2) [OF out, of l] py_set_strings [OF strs [of l]]
    by (simp add: eff)
  moreover have "merge_results rs = Inr out"
    by (simp add: merge_results_def and_then_def loop out)
  ultimately show ?thesis by blast
qed

section \<open>Selection of the scalar fields\<close>

text \<open>
  C2. For every sequence of ImageResults (the empty one included, where no field has a
  vote), \<open>merge_results\<close> returns, and for every lens and every scalar field with at
  least one vote the value returned is one of the votes, no vote has a greater tally,
  and among the votes of the same tally none occurs earlier in the traversal of the
  input: ties go to the value encountered first. For the two results voting \<open>"A"\<close> then
  \<open>"B"\<close> for \<open>accurate.name\<close> this gives \<open>"A"\<close>, which is derived from the theorem below it.
\<close>

theorem tie_break_first_encountered:
  assumes "list_all image_result rs"
  shows "\<exists>out. merge_results rs = Inr out \<and>
           (\<forall>l f. votes (lens_key l) (field_key f) rs \<noteq> [] \<longrightarrow>
              get_field f (get_lens l out) \<in> set (votes (lens_key l) (field_key f) rs) \<and>
              (\<forall>w\<in>set (votes (lens_key l) (field_key f) rs).
                 count_list (votes (lens_key l) (field_key f) rs) w
                   \<le> count_list (votes (lens_key l) (field_key f) rs) (get_field f (get_lens l out)) \<and>
                 (count_list (votes (lens_key l) (field_key f) rs) w
                    = count_list (votes (lens_key l) (field_key f) rs) (get_field f (get_lens l out)) \<longrightarrow>
                  first_occurrence (votes (lens_key l) (field_key f) rs) (get_field f (get_lens l out))
                    \<le> first_occurrence (votes (lens_key l) (field_key f) rs) w)))"
proof -
  from merge_results_total [OF assms] obtain out where out: "merge_results rs = Inr out"
    by blast
  have "get_field f (get_lens l out) \<in> set (votes (lens_key l) (field_key f) rs) \<and>
        (\<forall>w\<in>set (votes (lens_key l) (field_key f) rs).
           count_list (votes (lens_key l) (field_key f) rs) w
             \<le> count_list (votes (lens_key l) (field_key f) rs) (get_field f (get_lens l out)) \<and>
           (count_list (votes (lens_key l) (field_key f) rs) w
              = count_list (votes (lens_key l) (field_key f) rs) (get_field f (get_lens l out)) \<longrightarrow>
            first_occurrence (votes (lens_key l) (field_key f) rs) (get_field f (get_lens l out))
              \<le> first_occurrence (votes (lens_key l) (field_key f) rs) w))"
    if ne: "votes (lens_key l) (field_key f) rs \<noteq> []" for l f
  proof -
    let ?vs = "votes (lens_key l) (field_key f) rs"
    have plain: "\<forall>v\<in>set ?vs. py_key v = v"
      using votes_are_str [OF assms, of l f] is_str_plain by blast
    from top_of_tally [OF plain ne] merge_results_field [OF out, of l f]
    have v_in: "get_field f (get_lens l out) \<in> set ?vs"
      and maxi: "\<And>w. count_list ?vs w \<le> count_list ?vs (get_field f (get_lens l out))"
      and early: "\<And>w. w \<in> set (takeWhile (\<lambda>y. y \<noteq> get_field f (get_lens l out)) ?vs)
                 \<Longrightarrow> count_list ?vs w < count_list ?vs (get_field f (get_lens l out))"
      by auto
    have "first_occurrence ?vs (get_field f (get_lens l out)) \<le> first_occurrence ?vs w"
      if "count_list ?vs w = count_list ?vs (get_field f (get_lens l out))" for w
    proof (rule first_occurrence_le)
      show "w \<notin> set (takeWhile (\<lambda>y. y \<noteq> get_field f (get_lens l out)) ?vs)"
        using early [of w] that by auto
    qed
    with v_in maxi show ?thesis by blast
  qed
  with out show ?thesis by blast
qed

lemma ex_A_B_votes: "votes ''accurate'' ''name'' ex_A_B = [PStr ''A'', PStr ''B'']"
  by (simp add: ex_A_B_def)

theorem tie_break_first_encountered_witness:
  "list_all image_result ex_A_B \<and>
   (\<exists>out. merge_results ex_A_B = Inr out \<and> name (accurate out) = PStr ''A'')"
proof -
  have wf: "list_all image_result ex_A_B"
    by (simp add: ex_A_B_def absent_or_def)
  from tie_break_first_encountered [OF wf] obtain out where
    out: "merge_results ex_A_B = Inr out"
    and sel: "\<And>l f. votes (lens_key l) (field_key f) ex_A_B \<noteq> [] \<Longrightarrow>
              get_field f (get_lens l out) \<in> set (votes (lens_key l) (field_key f) ex_A_B) \<and>
              (\<forall>w\<in>set (votes (lens_key l) (field_key f) ex_A_B).
                 count_list (votes (lens_key l) (field_key f) ex_A_B) w
                   \<le> count_list (votes (lens_key l) (field_key f) ex_A_B) (get_field f (get_lens l out)) \<and>
                 (count_list (votes (lens_key l) (field_key f) ex_A_B) w
                    = count_list (votes (lens_key l) (field_key f) ex_A_B) (get_field f (get_lens l out)) \<longrightarrow>
                  first_occurrence (votes (lens_key l) (field_key f) ex_A_B) (get_field f (get_lens l out))
                    \<le> first_occurrence (votes (lens_key l) (field_key f) ex_A_B) w))"
    by blast
  from sel [of Accurate Name] have "name (accurate out) = PStr ''A''"
    by (auto simp: ex_A_B_votes first_occurrence_def split: if_splits)
  with wf out show ?thesis by blast
qed

lemma count_votes:
  "count_list (votes l f rs) w = length (filter (\<lambda>r. field_of l f r = Some w) rs)"
  by (induction rs) (auto split: option.splits)

lemma votes_Nil_iff: "votes l f rs = [] \<longleftrightarrow> (\<forall>r\<in>set rs. field_of l f r = None)"
  by (induction rs) (auto split: option.splits)

lemma set_votes: "set (votes l f rs) = {v. \<exists>r\<in>set rs. field_of l f r = Some v}"
  by (induction rs) (auto split: option.splits)

text \<open>
  C3. For every sequence of ImageResults, every lens and every scalar field, call the
  tally of a value the number of results in which the field is present with that value
  (a result without the field counts for no value, the empty string included). When
  some result has the field, the value that \<open>merge_results\<close> returns has a positive
  tally and no value has a greater one. For the three results voting \<open>"500mg"\<close>,
  \<open>"500mg"\<close>, \<open>"250mg"\<close> this gives \<open>"500mg"\<close>, derived from the theorem below it.
\<close>

theorem plurality_of_present_values:
  assumes "list_all image_result rs"
  shows "\<exists>out. merge_results rs = Inr out \<and>
           (\<forall>l f. (\<exists>r\<in>set rs. field_of (lens_key l) (field_key f) r \<noteq> None) \<longrightarrow>
              0 < length (filter (\<lambda>r. field_of (lens_key l) (field_key f) r
                                        = Some (get_field f (get_lens l out))) rs) \<and>
              (\<forall>w. length (filter (\<lambda>r. field_of (lens_key l) (field_key f) r = Some w) rs)
                     \<le> length (filter (\<lambda>r. field_of (lens_key l) (field_key f) r
                                               = Some (get_field f (get_lens l out))) rs)))"
proof -
  from merge_results_total [OF assms] obtain out where out: "merge_results rs = Inr out"
    by blast
  have "0 < length (filter (\<lambda>r. field_of (lens_key l) (field_key f) r
                                        = Some (get_field f (get_lens l out))) rs) \<and>
        (\<forall>w. length (filter (\<lambda>r. field_of (lens_key l) (field_key f) r = Some w) rs)
               \<le> length (filter (\<lambda>r. field_of (lens_key l) (field_key f) r
                                         = Some (get_field f (get_lens l out))) rs))"
    if "\<exists>r\<in>set rs. field_of (lens_key l) (field_key f) r \<noteq> None" for l f
  proof -
    let ?vs = "votes (lens_key l) (field_key f) rs"
    from that have ne: "?vs \<noteq> []" by (simp add: votes_Nil_iff)
    have plain: "\<forall>v\<in>set ?vs. py_key v = v"
      using votes_are_str [OF assms, of l f] is_str_plain by blast
    from top_of_tally [OF plain ne] merge_results_field [OF out, of l f]
    have v_in: "get_field f (get_lens l out) \<in> set ?vs"
      and maxi: "\<And>w. count_list ?vs w \<le> count_list ?vs (get_field f (get_lens l out))"
      by auto
    from v_in have "count_list ?vs (get_field f (get_lens l out)) \<noteq> 0"
      by (simp only: count_list_0_iff) simp
    then have "0 < count_list ?vs (get_field f (get_lens l out))"
      by simp
    with maxi show ?thesis by (simp add: count_votes)
  qed
  with out show ?thesis by blast
qed

theorem plurality_of_present_values_witness:
  "list_all image_result ex_dosage \<and>
   (\<exists>out. merge_results ex_dosage = Inr out \<and> dosage (accurate out) = PStr ''500mg'')"
proof -
  have wf: "list_all image_result ex_dosage"
    by (simp add: ex_dosage_def absent_or_def)
  from plurality_of_present_values [OF wf] obtain out where
    out: "merge_results ex_dosage = Inr out"
    and sel: "\<And>l f. (\<exists>r\<in>set ex_dosage. field_of (lens_key l) (field_key f) r \<noteq> None) \<Longrightarrow>
              0 < length (filter (\<lambda>r. field_of (lens_key l) (field_key f) r
                                        = Some (get_field f (get_lens l out))) ex_dosage) \<and>
              (\<forall>w. length (filter (\<lambda>r. field_of (lens_key l) (field_key f) r = Some w) ex_dosage)
                     \<le> length (filter (\<lambda>r. field_of (lens_key l) (field_key f) r
                                               = Some (get_field f (get_lens l out))) ex_dosage))"
    by blast
  have "\<exists>r\<in>set ex_dosage. field_of (lens_key Accurate) (field_key Dosage) r \<noteq> None"
    by (simp add: ex_dosage_def)
  from sel [OF this] have
    "length (filter (\<lambda>r. field_of ''accurate'' ''dosage'' r = Some (PStr ''500mg'')) ex_dosage)
       \<le> length (filter (\<lambda>r. field_of ''accurate'' ''dosage'' r = Some (dosage (accurate out))) ex_dosage)"
    by simp
  then have "dosage (accurate out) = PStr ''500mg''"
    by (simp add: ex_dosage_def split: if_splits)
  with wf out show ?thesis by blast
qed

text \<open>
  C7. For every sequence of ImageResults \<open>merge_results\<close> returns a record (the model is
  a total function, defined by recursion over the input list, and the result is no
  exception), and each scalar field of each lens is \<open>"Unknown"\<close> or the value of that
  field in one of the input results.
\<close>

theorem scalar_from_input_or_unknown:
  assumes "list_all image_result rs"
  shows "\<exists>out. merge_results rs = Inr out \<and>
           (\<forall>l f. get_field f (get_lens l out) = PStr ''Unknown'' \<or>
                  (\<exists>r\<in>set rs. field_of (lens_key l) (field_key f) r
                                 = Some (get_field f (get_lens l out))))"
proof -
  from merge_results_total [OF assms] obtain out where out: "merge_results rs = Inr out"
    by blast
  have "get_field f (get_lens l out) = PStr ''Unknown'' \<or>
        (\<exists>r\<in>set rs. field_of (lens_key l) (field_key f) r = Some (get_field f (get_lens l out)))"
    for l f
  proof (cases "votes (lens_key l) (field_key f) rs = []")
    case True
    with merge_results_field [OF out, of l f] show ?thesis
      by (simp add: top_or_unknown_def)
  next
    case False
    then have "fold counter_add (votes (lens_key l) (field_key f) rs) [] \<noteq> []"
      by (simp add: tally_Nil_iff)
    from top_membership [OF this] merge_results_field [OF out, of l f]
    have "get_field f (get_lens l out)
            \<in> fst ` set (fold counter_add (votes (lens_key l) (field_key f) rs) [])"
      by auto
    with keys_tally [of "votes (lens_key l) (field_key f) rs" "[]"]
    have "get_field f (get_lens l out) \<in> set (votes (lens_key l) (field_key f) rs)"
      by auto
    then show ?thesis by (auto simp: set_votes)
  qed
  with out show ?thesis by blast
qed

theorem scalar_from_input_or_unknown_witness:
  "list_all image_result ex_dosage \<and>
   (\<exists>out. merge_results ex_dosage = Inr out \<and>
      name (guessed out) = PStr ''Unknown'' \<and>
      dosage (accurate out) \<in> {PStr ''Unknown'', PStr ''500mg'', PStr ''250mg''})"
proof -
  have wf: "list_all image_result ex_dosage"
    by (simp add: ex_dosage_def absent_or_def)
  from scalar_from_input_or_unknown [OF wf] obtain out where
    out: "merge_results ex_dosage = Inr out"
    and sel: "\<And>l f. get_field f (get_lens l out) = PStr ''Unknown'' \<or>
                  (\<exists>r\<in>set ex_dosage. field_of (lens_key l) (field_key f) r
                                 = Some (get_field f (get_lens l out)))"
    by blast
  from sel [of Name Guessed] have "name (guessed out) = PStr ''Unknown''"
    by (simp add: ex_dosage_def)
  moreover from sel [of Dosage Accurate]
  have "dosage (accurate out) \<in> {PStr ''Unknown'', PStr ''500mg'', PStr ''250mg''}"
    by (auto simp: ex_dosage_def)
  ultimately show ?thesis using wf out by blast
qed

text \<open>
  C4. The returned record has every scalar field under both lenses (its type has no
  optional field), it is returned for every sequence of ImageResults, and whenever
  \<open>merge_results\<close> returns, on any input sequence at all, a scalar field that no input
  result has is \<open>"Unknown"\<close>. For the input \<open>[{}]\<close> every scalar field is \<open>"Unknown"\<close> and
  both \<open>side_effects\<close> are empty, derived from the theorem below it.
\<close>

theorem absent_field_is_unknown:
  "(list_all image_result rs \<longrightarrow> (\<exists>out. merge_results rs = Inr out)) \<and>
   (\<forall>out l f. merge_results rs = Inr out \<and>
                (\<forall>r\<in>set rs. field_of (lens_key l) (field_key f) r = None) \<longrightarrow>
                get_field f (get_lens l out) = PStr ''Unknown'')"
proof (intro conjI impI allI)
  assume "list_all image_result rs"
  from merge_results_total [OF this] show "\<exists>out. merge_results rs = Inr out" by blast
next
  fix out l f
  assume "merge_results rs = Inr out \<and>
          (\<forall>r\<in>set rs. field_of (lens_key l) (field_key f) r = None)"
  then have out: "merge_results rs = Inr out"
    and "votes (lens_key l) (field_key f) rs = []"
    by (simp_all add: votes_Nil_iff)
  with merge_results_field [OF out, of l f]
  show "get_field f (get_lens l out) = PStr ''Unknown''"
    by (simp add: top_or_unknown_def)
qed

theorem absent_field_is_unknown_witness:
  "list_all image_result [PDict []] \<and>
   (\<exists>out. merge_results [PDict []] = Inr out \<and>
      (\<forall>l f. get_field f (get_lens l out) = PStr ''Unknown'') \<and>
      (\<forall>l. side_effects (get_lens l out) = {}))"
proof -
  have wf: "list_all image_result [PDict []]"
    by (simp add: absent_or_def)
  from absent_field_is_unknown [of "[PDict []]"] wf obtain out where
    out: "merge_results [PDict []] = Inr out"
    and unk: "\<And>l f. (\<forall>r\<in>set [PDict []]. field_of (lens_key l) (field_key f) r = None) \<Longrightarrow>
                get_field f (get_lens l out) = PStr ''Unknown''"
    by blast
  have "get_field f (get_lens l out) = PStr ''Unknown''" for l f
    by (rule unk) simp
  moreover from merge_results_total [OF wf] out
  have "side_effects (get_lens l out) = {}" for l
    by (auto simp: effects_of_def)
  ultimately show ?thesis using wf out by blast
qed

section \<open>Side effects\<close>

text \<open>
  C5. For every sequence of ImageResults and each lens, the \<open>side_effects\<close> of the
  returned record, a set, is the union of the \<open>side_effects\<close> lists that the input
  results have under that lens. The two results listing \<open>["nausea"]\<close> and
  \<open>["nausea", "rash"]\<close> give \<open>{"nausea", "rash"}\<close>, derived from the theorem below it.
\<close>

theorem side_effects_union:
  assumes "list_all image_result rs"
  shows "\<exists>out. merge_results rs = Inr out \<and>
           (\<forall>l. side_effects (get_lens l out) =
                  (\<Union>r\<in>set rs. set (effects_of (lens_key l) r)))"
  using assms by (rule merge_results_total)

theorem side_effects_union_witness:
  "list_all image_result ex_side_effects \<and>
   (\<exists>out. merge_results ex_side_effects = Inr out \<and>
      side_effects (accurate out) = {PStr ''nausea'', PStr ''rash''} \<and>
      side_effects (guessed out) = {})"
proof -
  have wf: "list_all image_result ex_side_effects"
    by (simp add: ex_side_effects_def absent_or_def)
  from side_effects_union [OF wf] obtain out where
    out: "merge_results ex_side_effects = Inr out"
    and eff: "\<And>l. side_effects (get_lens l out) =
                  (\<Union>r\<in>set ex_side_effects. set (effects_of (lens_key l) r))"
    by blast
  from eff [of Accurate] have "side_effects (accurate out) = {PStr ''nausea'', PStr ''rash''}"
    by (auto simp: ex_side_effects_def effects_of_def)
  moreover from eff [of Guessed] have "side_effects (guessed out) = {}"
    by (auto simp: ex_side_effects_def effects_of_def)
  ultimately show ?thesis using wf out by blast
qed

section \<open>A repeated result\<close>

lemma tally_field_any:
  assumes "tally_field k data c = Inr c'"
  shows "tally_field k data c2 = Inr (add_vote (lens_field k data) c2)"
  using assms
  by (cases data)
     (auto simp: tally_field_def and_then_def counter_incr_def split: if_splits option.splits)

lemma extend_field_any:
  assumes "extend_field k data xs = Inr xs'"
  shows "\<exists>ys. xs' = xs @ ys \<and> (\<forall>zs. extend_field k data zs = Inr (zs @ ys))"
proof (cases "py_contains k data")
  case (Inl e)
  with assms show ?thesis by (simp add: extend_field_def and_then_def)
next
  case (Inr present)
  show ?thesis
  proof (cases present)
    case False
    with Inr assms have "xs' = xs @ [] \<and> (\<forall>zs. extend_field k data zs = Inr (zs @ []))"
      by (simp add: extend_field_def and_then_def)
    then show ?thesis by blast
  next
    case True
    with Inr assms obtain v ys where v: "py_getitem data k = Inr v" and ys: "py_iter v = Inr ys"
      and xs': "xs' = xs @ ys"
      by (auto simp: extend_field_def and_then_def split: sum.splits)
    with Inr True have "\<forall>zs. extend_field k data zs = Inr (zs @ ys)"
      by (simp add: extend_field_def and_then_def)
    with xs' show ?thesis by blast
  qed
qed

lemma merge_lens_any:
  assumes "merge_lens data acc = Inr a1"
  shows "\<exists>ys. side_effects a1 = side_effects acc @ ys \<and>
           (\<forall>acc2. \<exists>a2. merge_lens data acc2 = Inr a2 \<and>
                        side_effects a2 = side_effects acc2 @ ys)"
proof -
  from assms obtain n d s m u where
    n: "tally_field ''name'' data (name acc) = Inr n"
    and d: "tally_field ''dosage'' data (dosage acc) = Inr d"
    and s: "extend_field ''side_effects'' data (side_effects acc) = Inr s"
    and m: "tally_field ''manufacturer'' data (manufacturer acc) = Inr m"
    and u: "tally_field ''usage'' data (usage acc) = Inr u"
    and a1: "a1 = \<lparr>name = n, dosage = d, side_effects = s, manufacturer = m, usage = u\<rparr>"
    by (auto simp: merge_lens_def and_then_def split: sum.splits)
  from extend_field_any [OF s] obtain ys where
    ys: "s = side_effects acc @ ys"
    and any: "\<And>zs. extend_field ''side_effects'' data zs = Inr (zs @ ys)"
    by blast
  have "\<exists>a2. merge_lens data acc2 = Inr a2 \<and> side_effects a2 = side_effects acc2 @ ys" for acc2
    by (simp add: merge_lens_def and_then_def any
        tally_field_any [OF n] tally_field_any [OF d] tally_field_any [OF m] tally_field_any [OF u])
  with a1 ys show ?thesis by auto
qed

lemma merge_result_any:
  assumes "merge_result r acc = Inr a1"
  shows "\<exists>ys. (\<forall>l. side_effects (get_lens l a1) = side_effects (get_lens l acc) @ ys l) \<and>
           (\<forall>acc2. \<exists>a2. merge_result r acc2 = Inr a2 \<and>
              (\<forall>l. side_effects (get_lens l a2) = side_effects (get_lens l acc2) @ ys l))"
proof (cases "is_dict r")
  case True
  then obtain d where PDict: "r = PDict d" by (cases r) simp_all
  have part: "\<exists>ys. side_effects a = side_effects acc0 @ ys \<and>
           (\<forall>acc2. \<exists>a2. (case x of None \<Rightarrow> Inr acc2 | Some data \<Rightarrow> merge_lens data acc2) = Inr a2 \<and>
                        side_effects a2 = side_effects acc2 @ ys)"
    if "(case x of None \<Rightarrow> Inr acc0 | Some data \<Rightarrow> merge_lens data acc0) = Inr a"
    for x :: "pyval option" and acc0 a :: "(counter, pyval list) lens_data"
  proof (cases x)
    case None
    with that have "side_effects a = side_effects acc0 @ [] \<and>
      (\<forall>acc2. \<exists>a2. (case x of None \<Rightarrow> Inr acc2 | Some data \<Rightarrow> merge_lens data acc2) = Inr a2 \<and>
                        side_effects a2 = side_effects acc2 @ [])"
      by simp
    then show ?thesis by blast
  next
    case (Some data)
    with that merge_lens_any [of data acc0 a] show ?thesis by simp
  qed
  from assms PDict obtain a g where
    a: "(case map_of d ''accurate'' of None \<Rightarrow> Inr (accurate acc)
         | Some data \<Rightarrow> merge_lens data (accurate acc)) = Inr a"
    and g: "(case map_of d ''guessed'' of None \<Rightarrow> Inr (guessed acc)
         | Some data \<Rightarrow> merge_lens data (guessed acc)) = Inr g"
    and a1: "a1 = \<lparr>accurate = a, guessed = g\<rparr>"
    by (auto simp: merge_result_def and_then_def split: sum.splits)
  from part [OF a] obtain ya where
    ya: "side_effects a = side_effects (accurate acc) @ ya"
    and anya: "\<And>acc2. \<exists>a2. (case map_of d ''accurate'' of None \<Rightarrow> Inr acc2
                 | Some data \<Rightarrow> merge_lens data acc2) = Inr a2 \<and>
                 side_effects a2 = side_effects acc2 @ ya"
    by blast
  from part [OF g] obtain yg where
    yg: "side_effects g = side_effects (guessed acc) @ yg"
    and anyg: "\<And>acc2. \<exists>a2. (case map_of d ''guessed'' of None \<Rightarrow> Inr acc2
                 | Some data \<Rightarrow> merge_lens data acc2) = Inr a2 \<and>
                 side_effects a2 = side_effects acc2 @ yg"
    by blast
  define ys where "ys l = (case l of Accurate \<Rightarrow> ya | Guessed \<Rightarrow> yg)" for l
  have first: "side_effects (get_lens l a1) = side_effects (get_lens l acc) @ ys l" for l
    by (cases l) (simp_all add: a1 ya yg ys_def)
  have "\<exists>a2. merge_result r acc2 = Inr a2 \<and>
          (\<forall>l. side_effects (get_lens l a2) = side_effects (get_lens l acc2) @ ys l)" for acc2
  proof -
    from anya [of "accurate acc2"] anyg [of "guessed acc2"] obtain a' g' where
      a': "(case map_of d ''accurate'' of None \<Rightarrow> Inr (accurate acc2)
             | Some data \<Rightarrow> merge_lens data (accurate acc2)) = Inr a'"
      and sa: "side_effects a' = side_effects (accurate acc2) @ ya"
      and g': "(case map_of d ''guessed'' of None \<Rightarrow> Inr (guessed acc2)
             | Some data \<Rightarrow> merge_lens data (guessed acc2)) = Inr g'"
      and sg: "side_effects g' = side_effects (guessed acc2) @ yg"
      by blast
    have run: "merge_result r acc2 = Inr \<lparr>accurate = a', guessed = g'\<rparr>"
      by (simp add: PDict merge_result_def and_then_def a' g')
    have "side_effects (get_lens l \<lparr>accurate = a', guessed = g'\<rparr>) =
            side_effects (get_lens l acc2) @ ys l" for l
      by (cases l) (simp_all add: sa sg ys_def)
    with run show ?thesis by blast
  qed
  with first show ?thesis by blast
next
  case False
  then have "(\<forall>l. side_effects (get_lens l a1) = side_effects (get_lens l acc) @ []) \<and>
     (\<forall>acc2. \<exists>a2. merge_result r acc2 = Inr a2 \<and>
        (\<forall>l. side_effects (get_lens l a2) = side_effects (get_lens l acc2) @ []))"
    using assms by (simp add: merge_result_non_dict)
  then show ?thesis by (rule exI [of _ "\<lambda>l. []"])
qed


lemma summarise_cong:
  assumes "\<And>l f. top_or_unknown (get_field f (get_lens l a)) =
                  top_or_unknown (get_field f (get_lens l b))"
    and "\<And>l. py_set (side_effects (get_lens l a)) = py_set (side_effects (get_lens l b))"
  shows "summarise a = summarise b"
  using assms(1) [of Name Accurate] assms(1) [of Dosage Accurate]
    assms(1) [of Manufacturer Accurate] assms(1) [of Usage Accurate]
    assms(1) [of Name Guessed] assms(1) [of Dosage Guessed]
    assms(1) [of Manufacturer Guessed] assms(1) [of Usage Guessed]
    assms(2) [of Accurate] assms(2) [of Guessed]
  by (simp add: summarise_def summarise_lens_def)

lemma top_of_repeated_vote:
  "top_or_unknown (add_vote x (add_vote x [])) = top_or_unknown (add_vote x [])"
  by (cases x) (simp_all add: top_or_unknown_def most_common_1_def)

lemma fold_set_add_keys:
  "py_key ` set (fold set_add xs s) = py_key ` set s \<union> py_key ` set xs"
  by (induction xs arbitrary: s) (auto simp: set_add_def)

lemma fold_set_add_absorb:
  "py_key ` set xs \<subseteq> py_key ` set s \<Longrightarrow> fold set_add xs s = s"
  by (induction xs arbitrary: s) (auto simp: set_add_def)

lemma py_set_twice: "py_set (xs @ xs) = py_set xs"
proof -
  have "fold set_add xs (fold set_add xs []) = fold set_add xs []"
    by (rule fold_set_add_absorb) (simp add: fold_set_add_keys)
  then show ?thesis by (simp add: py_set_def)
qed

text \<open>
  C6. For every value \<open>r\<close>, an ImageResult or not, \<open>merge_results\<close> has the same outcome
  on \<open>[r]\<close> and on \<open>[r, r]\<close>: the same record (its \<open>side_effects\<close> being sets), or the same
  exception when \<open>r\<close> is malformed.
\<close>

theorem repeated_result_changes_nothing: "merge_results [r] = merge_results [r, r]"
proof (cases "merge_result r empty_merged")
  case (Inl e)
  then show ?thesis by (simp add: merge_results_def and_then_def)
next
  case (Inr a1)
  from merge_result_any [OF Inr] obtain ys where
    e1: "\<And>l. side_effects (get_lens l a1) = ys l"
    and any: "\<And>acc2. \<exists>a2. merge_result r acc2 = Inr a2 \<and>
              (\<forall>l. side_effects (get_lens l a2) = side_effects (get_lens l acc2) @ ys l)"
    by (auto simp: side_effects_empty)
  from any [of a1] obtain a2 where
    a2: "merge_result r a1 = Inr a2"
    and e2: "\<And>l. side_effects (get_lens l a2) = side_effects (get_lens l a1) @ ys l"
    by blast
  have tops: "top_or_unknown (get_field f (get_lens l a1)) =
              top_or_unknown (get_field f (get_lens l a2))" for l f
    using merge_result_field [OF Inr, of f l] merge_result_field [OF a2, of f l]
    by (simp add: get_field_empty top_of_repeated_vote)
  have sets: "py_set (side_effects (get_lens l a1)) = py_set (side_effects (get_lens l a2))" for l
    by (simp add: e2 e1 py_set_twice)
  have "summarise a1 = summarise a2"
    using tops sets by (rule summarise_cong)
  then show ?thesis
    by (simp add: merge_results_def and_then_def Inr a2)
qed

section \<open>Entries that are not dictionaries\<close>

lemma merge_loop_filter: "merge_loop (filter is_dict rs) acc = merge_loop rs acc"
proof (induction rs arbitrary: acc)
  case Nil
  show ?case by simp
next
  case (Cons r rs)
  show ?case
  proof (cases "is_dict r")
    case True
    then show ?thesis
      by (cases "merge_result r acc") (simp_all add: and_then_def Cons.IH)
  next
    case False
    then show ?thesis
      by (simp add: merge_result_non_dict and_then_def Cons.IH)
  qed
qed

text \<open>
  C10. Whatever the input sequence holds, the entries that are not dictionaries are
  skipped: \<open>merge_results\<close> gives the same outcome (the same consolidated result, or the
  same exception) as on the sequence with those entries removed. In particular such an
  entry adds no vote, no side effect and no error of its own.
\<close>

theorem merge_results_skips_non_dicts:
  "merge_results rs = merge_results (filter is_dict rs)"
  by (simp add: merge_results_def merge_loop_filter)

section \<open>The empty sequence\<close>

text \<open>
  C1 (as stated, refuted). The claim says that \<open>merge_results\<close> fails on the empty
  sequence. It does not: the call returns normally.
\<close>

theorem merge_results_empty_no_error: "\<not> isl (merge_results [])"
  by (simp add: merge_results_def empty_merged_def empty_lens_def summarise_def
      summarise_lens_def top_or_unknown_def py_set_def and_then_def)

text \<open>
  C1 (amended). On the empty sequence \<open>merge_results\<close> raises nothing and returns the
  record in which every scalar field of both lenses is \<open>"Unknown"\<close> and both
  \<open>side_effects\<close> are empty.
\<close>

theorem merge_results_empty:
  "merge_results [] =
     Inr \<lparr>accurate = \<lparr>name = PStr ''Unknown'', dosage = PStr ''Unknown'', side_effects = {},
                       manufacturer = PStr ''Unknown'', usage = PStr ''Unknown''\<rparr>,
          guessed = \<lparr>name = PStr ''Unknown'', dosage = PStr ''Unknown'', side_effects = {},
                      manufacturer = PStr ''Unknown'', usage = PStr ''Unknown''\<rparr>\<rparr>"
  by (simp add: merge_results_def empty_merged_def empty_lens_def summarise_def
      summarise_lens_def top_or_unknown_def py_set_def and_then_def)

section \<open>The endpoint\<close>

lemma collect_responses_returns:
  assumes "\<forall>file\<in>set files. analyze_image file = Inr (ai file)"
  shows "collect_responses analyze_image files responses =
           Inr (responses @ filter (\<lambda>v. \<not> failure_marker v) (map ai files))"
  using assms
  by (induction files arbitrary: responses) (simp_all add: and_then_def)

lemma collect_responses_raises:
  assumes "\<forall>f\<in>set pre. \<not> isl (analyze_image f)" and "analyze_image file = Inl e"
  shows "collect_responses analyze_image (pre @ file # post) responses = Inl e"
  using assms
proof (induction pre arbitrary: responses)
  case Nil
  then show ?case by (simp add: and_then_def)
next
  case (Cons f pre)
  then obtain v where "analyze_image f = Inr v"
    by (cases "analyze_image f") simp_all
  with Cons show ?case by (simp add: and_then_def)
qed

text \<open>
  C8 (as stated, refuted). The claim speaks of every batch and splits on whether a usable
  ImageResult remains. Three batches of one file show that the endpoint does otherwise.
  When the reply is \<open>null\<close>, no ImageResult remains, yet the reply is no failure marker:
  the endpoint hands it to the aggregator (the outcome changes with the function put in
  its place) and returns \<open>{"medicine": ...}\<close> with every field \<open>"Unknown"\<close>. When the reply
  is \<open>{"accurate": {"name": "A", "side_effects": null}}\<close>, again no ImageResult remains and
  the endpoint raises \<open>TypeError\<close>. When \<open>analyze_image\<close> itself raises, the endpoint
  raises too and returns neither object.
\<close>

theorem identify_medicine_not_as_claimed:
  "filter image_result (filter (\<lambda>v. \<not> failure_marker v) [PNone]) = [] \<and>
   identify_medicine (\<lambda>file :: nat. Inr PNone) [0] =
     Inr (MedicineResponse
       \<lparr>accurate = \<lparr>name = PStr ''Unknown'', dosage = PStr ''Unknown'', side_effects = {},
                    manufacturer = PStr ''Unknown'', usage = PStr ''Unknown''\<rparr>,
        guessed = \<lparr>name = PStr ''Unknown'', dosage = PStr ''Unknown'', side_effects = {},
                   manufacturer = PStr ''Unknown'', usage = PStr ''Unknown''\<rparr>\<rparr>) \<and>
   identify_medicine_with (\<lambda>responses. Inl KeyError :: error + medicine)
     (\<lambda>file :: nat. Inr PNone) [0] = Inl KeyError \<and>
   filter image_result (filter (\<lambda>v. \<not> failure_marker v)
     [PDict [(''accurate'', PDict [(''name'', PStr ''A''), (''side_effects'', PNone)])]]) = [] \<and>
   identify_medicine
     (\<lambda>file :: nat. Inr (PDict [(''accurate'',
                                 PDict [(''name'', PStr ''A''), (''side_effects'', PNone)])]))
     [0] = Inl TypeError \<and>
   identify_medicine (\<lambda>file :: nat. Inl ExternalError) [0] = Inl ExternalError"
  by (simp add: identify_medicine_def identify_medicine_with_def and_then_def
      merge_results_def empty_merged_def empty_lens_def merge_result_def
      merge_lens_def tally_field_def extend_field_def counter_incr_def summarise_def
      summarise_lens_def top_or_unknown_def most_common_1_def py_set_def absent_or_def)

text \<open>
  C8 (amended). For every batch of files whose analyses all return: when every reply is
  a failure marker (a dictionary with the key \<open>"error"\<close>), so that no response is left, the
  endpoint returns the error object, whatever function stands in the aggregator's place
  (so the aggregator has no part in the outcome); otherwise it hands the replies left,
  in their order, to \<open>merge_results\<close> and returns \<open>{"medicine": merge_results(responses)}\<close>,
  or raises what \<open>merge_results\<close> raises; when the replies left are all ImageResults,
  \<open>merge_results\<close> returns and so does the endpoint. When the analysis of some file
  raises, all analyses before it having returned, the endpoint raises that exception.
\<close>

theorem identify_medicine_outcome:
  fixes analyze_image :: "'f \<Rightarrow> error + pyval"
    and aggregate :: "pyval list \<Rightarrow> error + 'm"
  shows
    "((\<forall>file\<in>set files. analyze_image file = Inr (ai file)) \<longrightarrow>
        (filter (\<lambda>v. \<not> failure_marker v) (map ai files) = [] \<longrightarrow>
           identify_medicine_with aggregate analyze_image files =
             Inr (ErrorResponse ''Failed to identify medicine from provided images'')) \<and>
        (filter (\<lambda>v. \<not> failure_marker v) (map ai files) \<noteq> [] \<longrightarrow>
           identify_medicine analyze_image files =
             and_then (merge_results (filter (\<lambda>v. \<not> failure_marker v) (map ai files)))
               (\<lambda>final_result. Inr (MedicineResponse final_result))) \<and>
        (filter (\<lambda>v. \<not> failure_marker v) (map ai files) \<noteq> [] \<and>
         list_all image_result (filter (\<lambda>v. \<not> failure_marker v) (map ai files)) \<longrightarrow>
           (\<exists>final_result.
              merge_results (filter (\<lambda>v. \<not> failure_marker v) (map ai files)) = Inr final_result \<and>
              identify_medicine analyze_image files = Inr (MedicineResponse final_result)))) \<and>
     (files = pre @ bad # post \<and> (\<forall>f\<in>set pre. \<not> isl (analyze_image f)) \<and>
      analyze_image bad = Inl e \<longrightarrow>
        identify_medicine_with aggregate analyze_image files = Inl e)"
proof (intro conjI impI)
  assume all: "\<forall>file\<in>set files. analyze_image file = Inr (ai file)"
  note collect = collect_responses_returns [OF all, of "[]"]
  {
    assume "filter (\<lambda>v. \<not> failure_marker v) (map ai files) = []"
    with collect show "identify_medicine_with aggregate analyze_image files =
        Inr (ErrorResponse ''Failed to identify medicine from provided images'')"
      by (simp add: identify_medicine_with_def and_then_def)
  }
  {
    assume "filter (\<lambda>v. \<not> failure_marker v) (map ai files) \<noteq> []"
    with collect show "identify_medicine analyze_image files =
             and_then (merge_results (filter (\<lambda>v. \<not> failure_marker v) (map ai files)))
               (\<lambda>final_result. Inr (MedicineResponse final_result))"
      by (simp add: identify_medicine_def identify_medicine_with_def and_then_def)
  }
  {
    assume a: "filter (\<lambda>v. \<not> failure_marker v) (map ai files) \<noteq> [] \<and>
         list_all image_result (filter (\<lambda>v. \<not> failure_marker v) (map ai files))"
    then obtain out where
      out: "merge_results (filter (\<lambda>v. \<not> failure_marker v) (map ai files)) = Inr out"
      using merge_results_total by blast
    with a collect have "identify_medicine analyze_image files = Inr (MedicineResponse out)"
      by (simp add: identify_medicine_def identify_medicine_with_def and_then_def)
    with out show "\<exists>final_result.
              merge_results (filter (\<lambda>v. \<not> failure_marker v) (map ai files)) = Inr final_result \<and>
              identify_medicine analyze_image files = Inr (MedicineResponse final_result)"
      by blast
  }
next
  assume "files = pre @ bad # post \<and> (\<forall>f\<in>set pre. \<not> isl (analyze_image f)) \<and>
        analyze_image bad = Inl e"
  then show "identify_medicine_with aggregate analyze_image files = Inl e"
    by (simp add: identify_medicine_with_def collect_responses_raises and_then_def)
qed

theorem identify_medicine_outcome_witness:
  "ex_analyze 0 = Inr (PDict [(''error'', PStr ''Invalid AI response'')]) \<and>
   ex_analyze 1 = Inr (PDict [(''accurate'', PDict [(''name'', PStr ''A'')])]) \<and>
   identify_medicine ex_analyze [0] =
     Inr (ErrorResponse ''Failed to identify medicine from provided images'') \<and>
   identify_medicine ex_analyze [0, 1] =
     Inr (MedicineResponse
       \<lparr>accurate = \<lparr>name = PStr ''A'', dosage = PStr ''Unknown'', side_effects = {},
                    manufacturer = PStr ''Unknown'', usage = PStr ''Unknown''\<rparr>,
        guessed = \<lparr>name = PStr ''Unknown'', dosage = PStr ''Unknown'', side_effects = {},
                   manufacturer = PStr ''Unknown'', usage = PStr ''Unknown''\<rparr>\<rparr>) \<and>
   identify_medicine (\<lambda>file. if file = 1 then Inl ExternalError else ex_analyze file) [0, 1] =
     Inl ExternalError"
proof -
  let ?ai = "\<lambda>file. projr (ex_analyze file)"
  let ?A = "PDict [(''accurate'', PDict [(''name'', PStr ''A'')])]"
  let ?an = "\<lambda>file. if file = 1 then Inl ExternalError else ex_analyze file"
  have h1: "\<forall>file\<in>set [0]. ex_analyze file = Inr (?ai file)"
    and h2: "\<forall>file\<in>set [0, 1]. ex_analyze file = Inr (?ai file)"
    by (simp_all add: ex_analyze_def)
  have none: "filter (\<lambda>v. \<not> failure_marker v) (map ?ai [0]) = []"
    by (simp add: ex_analyze_def)
  have one: "filter (\<lambda>v. \<not> failure_marker v) (map ?ai [0, 1]) \<noteq> [] \<and>
             list_all image_result (filter (\<lambda>v. \<not> failure_marker v) (map ?ai [0, 1]))"
    by (simp add: ex_analyze_def absent_or_def)
  have eq: "filter (\<lambda>v. \<not> failure_marker v) (map ?ai [0, 1]) = [?A]"
    by (simp add: ex_analyze_def)
  have raises: "[0, 1] = [0] @ 1 # [] \<and> (\<forall>f\<in>set [0]. \<not> isl (?an f)) \<and>
                ?an (1::nat) = Inl ExternalError"
    by (simp add: ex_analyze_def)
  note first = identify_medicine_outcome
    [where files = "[0]" and analyze_image = ex_analyze and ai = ?ai
       and aggregate = merge_results,
     THEN conjunct1, THEN mp, OF h1, THEN conjunct1, THEN mp, OF none]
  note second = identify_medicine_outcome
    [where files = "[0, 1]" and analyze_image = ex_analyze and ai = ?ai
       and aggregate = merge_results,
     THEN conjunct1, THEN mp, OF h2, THEN conjunct2, THEN conjunct2, THEN mp, OF one]
  note third = identify_medicine_outcome
    [where files = "[0, 1]" and analyze_image = ?an and aggregate = merge_results
       and pre = "[0]" and bad = 1 and post = "[]" and e = ExternalError,
     THEN conjunct2, THEN mp, OF raises]
  have merged: "merge_results [?A] =
     Inr \<lparr>accurate = \<lparr>name = PStr ''A'', dosage = PStr ''Unknown'', side_effects = {},
                    manufacturer = PStr ''Unknown'', usage = PStr ''Unknown''\<rparr>,
        guessed = \<lparr>name = PStr ''Unknown'', dosage = PStr ''Unknown'', side_effects = {},
                   manufacturer = PStr ''Unknown'', usage = PStr ''Unknown''\<rparr>\<rparr>"
    by (simp add: merge_results_def empty_merged_def empty_lens_def merge_result_def
        merge_lens_def tally_field_def extend_field_def counter_incr_def summarise_def
        summarise_lens_def top_or_unknown_def most_common_1_def py_set_def and_then_def)
  from second obtain final_result where
    "merge_results (filter (\<lambda>v. \<not> failure_marker v) (map ?ai [0, 1])) = Inr final_result"
    and "identify_medicine ex_analyze [0, 1] = Inr (MedicineResponse final_result)"
    by (elim exE conjE)
  with merged have two: "identify_medicine ex_analyze [0, 1] =
     Inr (MedicineResponse
       \<lparr>accurate = \<lparr>name = PStr ''A'', dosage = PStr ''Unknown'', side_effects = {},
                    manufacturer = PStr ''Unknown'', usage = PStr ''Unknown''\<rparr>,
        guessed = \<lparr>name = PStr ''Unknown'', dosage = PStr ''Unknown'', side_effects = {},
                   manufacturer = PStr ''Unknown'', usage = PStr ''Unknown''\<rparr>\<rparr>)"
    by (simp only: eq sum.inject)
  have a: "ex_analyze 0 = Inr (PDict [(''error'', PStr ''Invalid AI response'')])"
    and b: "ex_analyze 1 = Inr (PDict [(''accurate'', PDict [(''name'', PStr ''A'')])])"
    by (simp_all add: ex_analyze_def)
  from a b first two third show ?thesis
    by (simp only: identify_medicine_def simp_thms)
qed

section \<open>What a call leaves unchanged in the store\<close>

text \<open>
  Every statement of \<open>merge_results\<close> writes to the accumulators only, and these are
  new objects.
\<close>

lemma unchanged_refl: "unchanged_outside A h h"
  by (simp add: unchanged_outside_def)

lemma unchanged_trans:
  "unchanged_outside A h h' \<Longrightarrow> unchanged_outside A h' h'' \<Longrightarrow> unchanged_outside A h h''"
  by (simp add: unchanged_outside_def)

lemma unchanged_mono: "unchanged_outside A h h' \<Longrightarrow> A \<subseteq> B \<Longrightarrow> unchanged_outside B h h'"
  by (auto simp: unchanged_outside_def)

lemma unchanged_store: "unchanged_outside {a} h (store a obj h)"
  by (simp add: unchanged_outside_def store_def)

lemma unchanged_return: "unchanged_outside A h (snd (return_h x h))"
  by (simp add: return_h_def unchanged_refl)

lemma unchanged_read: "unchanged_outside A h (snd (read_h r h))"
  by (simp add: read_h_def unchanged_refl)

lemma unchanged_then:
  assumes "\<And>h. unchanged_outside A h (snd (m h))"
    and "\<And>x h. unchanged_outside A h (snd (f x h))"
  shows "unchanged_outside A h (snd (then_h m f h))"
proof (cases "m h")
  case (Pair r h')
  from assms(1) [of h] Pair have first: "unchanged_outside A h h'" by simp
  show ?thesis
  proof (cases r)
    case (Inl e)
    with Pair first show ?thesis by (simp add: then_h_def)
  next
    case (Inr x)
    with Pair have "snd (then_h m f h) = snd (f x h')" by (simp add: then_h_def)
    with first assms(2) [of h' x] show ?thesis by (simp add: unchanged_trans)
  qed
qed

lemma unchanged_counter_incr: "unchanged_outside {c} h (snd (counter_incr_h c v h))"
  by (simp add: counter_incr_h_def unchanged_refl unchanged_store
      split: option.splits hobj.splits)

lemma unchanged_extend: "unchanged_outside {l} h (snd (extend_h l v h))"
  unfolding extend_h_def
  by (intro unchanged_then unchanged_read)
     (simp add: unchanged_refl unchanged_store split: hobj.splits)

lemma unchanged_tally_field: "unchanged_outside {c} h (snd (tally_field_h key data c h))"
  unfolding tally_field_h_def
  by (intro unchanged_then unchanged_read)
     (auto intro!: unchanged_then unchanged_read unchanged_return unchanged_counter_incr)

lemma unchanged_extend_field: "unchanged_outside {l} h (snd (extend_field_h key data l h))"
  unfolding extend_field_h_def
  by (intro unchanged_then unchanged_read)
     (auto intro!: unchanged_then unchanged_read unchanged_return unchanged_extend)

lemma unchanged_tally_field_lens:
  "c \<in> lens_addrs refs \<Longrightarrow> unchanged_outside (lens_addrs refs) h (snd (tally_field_h key data c h))"
  by (rule unchanged_mono [OF unchanged_tally_field]) simp

lemma unchanged_extend_field_lens:
  "l \<in> lens_addrs refs \<Longrightarrow> unchanged_outside (lens_addrs refs) h (snd (extend_field_h key data l h))"
  by (rule unchanged_mono [OF unchanged_extend_field]) simp

lemma unchanged_merge_lens:
  "unchanged_outside (lens_addrs refs) h (snd (merge_lens_h data refs h))"
  unfolding merge_lens_h_def
  by (intro unchanged_then unchanged_tally_field_lens unchanged_extend_field_lens)
     (simp_all add: lens_addrs_def)

lemma unchanged_merge_key:
  "unchanged_outside (lens_addrs refs) h (snd (merge_key_h key result refs h))"
  unfolding merge_key_h_def
  by (intro unchanged_then unchanged_read)
     (auto intro!: unchanged_then unchanged_read unchanged_return unchanged_merge_lens)

lemma unchanged_merge_result:
  "unchanged_outside (all_addrs refs) h (snd (merge_result_h result refs h))"
proof (cases "h_is_dict h result")
  case True
  have "unchanged_outside (all_addrs refs) h
          (snd (then_h (merge_key_h ''accurate'' result (accurate refs))
                  (\<lambda>_. merge_key_h ''guessed'' result (guessed refs)) h))"
    by (intro unchanged_then unchanged_mono [OF unchanged_merge_key])
       (simp_all add: all_addrs_def)
  with True show ?thesis by (simp add: merge_result_h_def)
next
  case False
  then show ?thesis by (simp add: merge_result_h_def unchanged_refl)
qed

lemma unchanged_merge_loop:
  "unchanged_outside (all_addrs refs) h (snd (merge_loop_h results refs h))"
proof (induction results arbitrary: h)
  case Nil
  show ?case by (simp add: unchanged_return)
next
  case (Cons result results)
  show ?case
    by (simp only: merge_loop_h.simps)
       (intro unchanged_then unchanged_merge_result Cons.IH)
qed

lemma alloc_fresh:
  assumes "alloc obj h = (a, h')"
  shows "a = next_free h" and "next_free h' = Suc (next_free h)"
    and "objs h' = (objs h)(next_free h := obj)"
  using assms by (auto simp: alloc_def)

lemma new_lens_fresh:
  assumes "new_lens h = (refs, h')"
  shows "next_free h' = next_free h + 5"
    and "refs = \<lparr>name = next_free h, dosage = next_free h + 1, side_effects = next_free h + 2,
                 manufacturer = next_free h + 3, usage = next_free h + 4\<rparr>"
    and "\<forall>a. a < next_free h \<longrightarrow> objs h' a = objs h a"
    and "objs h' (next_free h) = HCounter []" and "objs h' (next_free h + 1) = HCounter []"
    and "objs h' (next_free h + 2) = HList []" and "objs h' (next_free h + 3) = HCounter []"
    and "objs h' (next_free h + 4) = HCounter []"
  using assms by (auto simp: new_lens_def alloc_def Let_def)

lemma new_merged_data_fresh:
  assumes "new_merged_data h = (refs, h')"
  shows "next_free h' = next_free h + 10"
    and "all_addrs refs \<subseteq> {next_free h ..< next_free h'}"
    and "\<forall>a. a < next_free h \<longrightarrow> objs h' a = objs h a"
proof -
  obtain a h1 where a: "new_lens h = (a, h1)" by (cases "new_lens h")
  obtain g h2 where g: "new_lens h1 = (g, h2)" by (cases "new_lens h1")
  from assms a g have refs: "refs = \<lparr>accurate = a, guessed = g\<rparr>" and h': "h' = h2"
    by (simp_all add: new_merged_data_def)
  from new_lens_fresh(1) [OF a] new_lens_fresh(1) [OF g]
  show "next_free h' = next_free h + 10" by (simp add: h')
  from new_lens_fresh(1,2) [OF a] new_lens_fresh(1,2) [OF g]
  show "all_addrs refs \<subseteq> {next_free h ..< next_free h'}"
    by (auto simp: refs h' all_addrs_def lens_addrs_def)
  from new_lens_fresh(1,3) [OF a] new_lens_fresh(3) [OF g]
  show "\<forall>a. a < next_free h \<longrightarrow> objs h' a = objs h a"
    by (simp add: h')
qed

lemma merge_results_h_frame:
  "next_free h \<le> next_free (snd (merge_results_h results h)) \<and>
   (\<forall>a. a < next_free h \<longrightarrow> objs (snd (merge_results_h results h)) a = objs h a)"
proof -
  obtain refs h1 where new: "new_merged_data h = (refs, h1)" by (cases "new_merged_data h")
  let ?body = "then_h (read_h (h_iter results)) (\<lambda>elems.
                 then_h (merge_loop_h elems refs) (\<lambda>_. read_h (summarise_h refs)))"
  have run: "merge_results_h results h = ?body h1"
    by (simp add: merge_results_h_def new)
  define h2 where "h2 = snd (?body h1)"
  have "unchanged_outside (all_addrs refs) h1 (snd (?body h1))"
    by (intro unchanged_then unchanged_read unchanged_merge_loop)
  then have same_next: "next_free h2 = next_free h1"
    and outside: "\<And>a. a \<notin> all_addrs refs \<Longrightarrow> objs h2 a = objs h1 a"
    by (simp_all add: unchanged_outside_def h2_def)
  note fresh = new_merged_data_fresh [OF new]
  have "objs h2 a = objs h a" if "a < next_free h" for a
  proof -
    from that fresh(2) have "a \<notin> all_addrs refs" by auto
    with outside fresh(3) that show ?thesis by simp
  qed
  moreover have "next_free h \<le> next_free h2"
    by (simp add: same_next fresh(1))
  ultimately show ?thesis by (simp add: run h2_def)
qed

section \<open>Reading a value in the store\<close>

lemma rep_scalar:
  assumes "rep p h n v"
  shows "scalar v = (if hashable p then Some p else None)"
  using assms by (cases p) (auto split: hval.splits)

lemma rep_stable:
  assumes "rep p h n v" and same: "\<forall>a. a < n \<longrightarrow> objs h' a = objs h a"
  shows "rep p h' n v"
  using assms(1)
proof (induction p arbitrary: v)
  case (PList ps)
  then obtain a vs where v: "v = HRef a" and a: "a < n"
    and obj: "objs h a = HList vs" and all: "list_all2 (\<lambda>p x. rep p h n x) ps vs"
    by (auto split: hval.splits hobj.splits)
  from all have "list_all2 (\<lambda>p x. rep p h' n x) ps vs"
    by (rule list.rel_mono_strong) (rule PList.IH)
  with v a obj same show ?case by simp
next
  case (PDict d)
  then obtain a kvs where v: "v = HRef a" and a: "a < n"
    and obj: "objs h a = HDict kvs"
    and all: "list_all2 (\<lambda>kp kv. fst kp = fst kv \<and> rep (snd kp) h n (snd kv)) d kvs"
    by (auto split: hval.splits hobj.splits)
  from all have "list_all2 (\<lambda>kp kv. fst kp = fst kv \<and> rep (snd kp) h' n (snd kv)) d kvs"
  proof (rule list.rel_mono_strong)
    fix kp kv
    assume "kp \<in> set d" and "fst kp = fst kv \<and> rep (snd kp) h n (snd kv)"
    moreover have "snd kp \<in> Basic_BNFs.snds kp"
      by (cases kp) (simp add: prod_set_simps)
    ultimately show "fst kp = fst kv \<and> rep (snd kp) h' n (snd kv)"
      using PDict.IH [of kp "snd kp" "snd kv"] by simp
  qed
  with v a obj same show ?case by simp
qed simp_all

lemma rep_is_dict: "rep p h n v \<Longrightarrow> h_is_dict h v = is_dict p"
  by (cases p) (auto simp: h_is_dict_def split: hval.splits hobj.splits)

lemma rep_str_iff: "rep p h n (HStr s) \<longleftrightarrow> p = PStr s"
  by (cases p) auto

lemma rep_list_member:
  assumes "list_all2 (\<lambda>p x. rep p h n x) ps vs"
  shows "HStr k \<in> set vs \<longleftrightarrow> PStr k \<in> set ps"
  using assms by (induction rule: list_all2_induct) (auto simp: rep_str_iff)

lemma rep_map_of:
  assumes "list_all2 (\<lambda>kp kv. fst kp = fst kv \<and> rep (snd kp) h n (snd kv)) d kvs"
  shows "rel_option (\<lambda>x q. rep q h n x) (map_of kvs k) (map_of d k)"
  using assms by (induction rule: list_all2_induct) auto

lemma rep_contains:
  assumes "rep p h n v"
  shows "h_contains k v h = py_contains k p"
proof (cases p)
  case (PList ps)
  with assms show ?thesis
    by (auto simp: h_contains_def rep_list_member split: hval.splits hobj.splits)
next
  case (PDict d)
  with assms obtain a kvs where v: "v = HRef a" and obj: "objs h a = HDict kvs"
    and all: "list_all2 (\<lambda>kp kv. fst kp = fst kv \<and> rep (snd kp) h n (snd kv)) d kvs"
    by (auto split: hval.splits hobj.splits)
  from rep_map_of [OF all, of k] have "map_of kvs k = None \<longleftrightarrow> map_of d k = None"
    by (cases "map_of kvs k"; cases "map_of d k") simp_all
  with PDict v obj show ?thesis by (simp add: h_contains_def)
qed (use assms in \<open>simp_all add: h_contains_def\<close>)

lemma rep_getitem:
  assumes "rep p h n v"
  shows "rel_sum (=) (\<lambda>x q. rep q h n x) (h_getitem v k h) (py_getitem p k)"
proof (cases p)
  case (PList ps)
  with assms show ?thesis
    by (auto simp: h_getitem_def split: hval.splits hobj.splits)
next
  case (PDict d)
  with assms obtain a kvs where v: "v = HRef a" and obj: "objs h a = HDict kvs"
    and all: "list_all2 (\<lambda>kp kv. fst kp = fst kv \<and> rep (snd kp) h n (snd kv)) d kvs"
    by (auto split: hval.splits hobj.splits)
  from rep_map_of [OF all, of k] PDict v obj show ?thesis
    by (cases "map_of kvs k"; cases "map_of d k") (simp_all add: h_getitem_def)
qed (use assms in \<open>simp_all add: h_getitem_def\<close>)

lemma rep_iter:
  assumes "rep p h n v"
  shows "rel_sum (=) (list_all2 (\<lambda>x q. rep q h n x)) (h_iter v h) (py_iter p)"
proof (cases p)
  case (PStr s)
  with assms show ?thesis
    by (simp add: h_iter_def list_all2_map1 list_all2_map2 list_all2_same)
next
  case (PList ps)
  with assms show ?thesis
    by (auto simp: h_iter_def list_all2_conv_all_nth split: hval.splits hobj.splits)
next
  case (PDict d)
  with assms obtain a kvs where v: "v = HRef a" and obj: "objs h a = HDict kvs"
    and all: "list_all2 (\<lambda>kp kv. fst kp = fst kv \<and> rep (snd kp) h n (snd kv)) d kvs"
    by (auto split: hval.splits hobj.splits)
  from all have "list_all2 (\<lambda>x q. rep q h n x)
      (map (\<lambda>kv. HStr (fst kv)) kvs) (map (\<lambda>kv. PStr (fst kv)) d)"
    by (auto simp: list_all2_map1 list_all2_map2 list_all2_conv_all_nth)
  with PDict v obj show ?thesis by (simp add: h_iter_def)
qed (use assms in \<open>simp_all add: h_iter_def\<close>)

section \<open>The run on the store computes what the functional model computes\<close>

lemma run_rel_then:
  assumes "run_rel Q (m h) res" and "\<And>h' y. Q h' y \<Longrightarrow> run_rel Q' (f h') (g y)"
  shows "run_rel Q' (then_h m (\<lambda>_. f) h) (and_then res g)"
proof (cases res)
  case (Inl e)
  with assms(1) show ?thesis
    by (cases "m h") (simp add: run_rel_def then_h_def and_then_def)
next
  case (Inr y)
  with assms(1) obtain h' where m: "m h = (Inr (), h')" and Q: "Q h' y"
    by (cases "m h") (simp add: run_rel_def)
  from assms(2) [OF Q] m Inr show ?thesis
    by (simp add: then_h_def and_then_def)
qed

lemma run_rel_map:
  assumes "run_rel Q rh res" and "\<And>h' y. Q h' y \<Longrightarrow> Q' h' (F y)"
  shows "run_rel Q' rh (and_then res (\<lambda>y. Inr (F y)))"
  using assms by (cases res) (simp_all add: run_rel_def and_then_def)

lemma run_rel_weaken:
  assumes "run_rel Q rh res" and "\<And>h' y. Q h' y \<Longrightarrow> Q' h' y"
  shows "run_rel Q' rh res"
  using assms by (cases res) (simp_all add: run_rel_def)

lemma store_same: "objs h c = obj \<Longrightarrow> store c obj h = h"
  by (auto simp: store_def)

lemma rep_store: "rep q h n x \<Longrightarrow> n \<le> c \<Longrightarrow> rep q (store c obj h) n x"
  by (erule rep_stable) (simp add: store_def)

lemma list_rep_store:
  "list_all2 (\<lambda>x q. rep q h n x) xs ys \<Longrightarrow> n \<le> c \<Longrightarrow>
   list_all2 (\<lambda>x q. rep q (store c obj h) n x) xs ys"
  by (erule list_all2_mono) (rule rep_store)

lemma counter_incr_refines:
  assumes "rep q h n x" and "objs h c = HCounter cnt"
  shows "run_rel (\<lambda>h' cnt'. h' = store c (HCounter cnt') h)
           (counter_incr_h c x h) (counter_incr q cnt)"
  using assms
  by (simp add: run_rel_def counter_incr_h_def counter_incr_def rep_scalar)

lemma tally_field_refines:
  assumes "rep p h n data" and "objs h c = HCounter cnt"
  shows "run_rel (\<lambda>h' cnt'. h' = store c (HCounter cnt') h)
           (tally_field_h key data c h) (tally_field key p cnt)"
proof (cases "py_contains key p")
  case (Inl e)
  with rep_contains [OF assms(1), of key] show ?thesis
    by (simp add: run_rel_def tally_field_h_def tally_field_def then_h_def read_h_def and_then_def)
next
  case (Inr present)
  note contains = rep_contains [OF assms(1), of key]
  show ?thesis
  proof (cases present)
    case False
    with Inr contains assms(2) show ?thesis
      by (simp add: run_rel_def tally_field_h_def tally_field_def then_h_def read_h_def
          return_h_def and_then_def store_same)
  next
    case True
    show ?thesis
    proof (cases "py_getitem p key")
      case (Inl e)
      with rep_getitem [OF assms(1), of key] have "h_getitem data key h = Inl e"
        by (cases "h_getitem data key h") simp_all
      with Inl Inr True contains show ?thesis
        by (simp add: run_rel_def tally_field_h_def tally_field_def then_h_def read_h_def
            and_then_def)
    next
      case (Inr q)
      with rep_getitem [OF assms(1), of key] obtain x where
        x: "h_getitem data key h = Inr x" and xq: "rep q h n x"
        by (cases "h_getitem data key h") simp_all
      from counter_incr_refines [OF xq assms(2)] Inr \<open>py_contains key p = Inr present\<close>
        True contains x
      show ?thesis
        by (simp add: tally_field_h_def tally_field_def then_h_def read_h_def and_then_def)
    qed
  qed
qed

lemma extend_field_refines:
  assumes "rep p h n data" and "objs h l = HList xs"
    and "list_all2 (\<lambda>x q. rep q h n x) xs ys"
  shows "run_rel (\<lambda>h' ys'. \<exists>xs'. h' = store l (HList xs') h \<and>
                     list_all2 (\<lambda>x q. rep q h n x) xs' ys')
           (extend_field_h key data l h) (extend_field key p ys)"
proof (cases "py_contains key p")
  case (Inl e)
  with rep_contains [OF assms(1), of key] show ?thesis
    by (simp add: run_rel_def extend_field_h_def extend_field_def then_h_def read_h_def
        and_then_def)
next
  case (Inr present)
  note contains = rep_contains [OF assms(1), of key]
  show ?thesis
  proof (cases present)
    case False
    from assms(2,3) have "\<exists>xs'. h = store l (HList xs') h \<and>
                     list_all2 (\<lambda>x q. rep q h n x) xs' ys"
      by (auto simp: store_same intro!: exI [of _ xs])
    with False Inr contains show ?thesis
      by (simp add: run_rel_def extend_field_h_def extend_field_def then_h_def read_h_def
          return_h_def and_then_def)
  next
    case True
    show ?thesis
    proof (cases "py_getitem p key")
      case (Inl e)
      with rep_getitem [OF assms(1), of key] have "h_getitem data key h = Inl e"
        by (cases "h_getitem data key h") simp_all
      with Inl Inr True contains show ?thesis
        by (simp add: run_rel_def extend_field_h_def extend_field_def then_h_def read_h_def
            and_then_def)
    next
      case (Inr q)
      with rep_getitem [OF assms(1), of key] obtain x where
        x: "h_getitem data key h = Inr x" and xq: "rep q h n x"
        by (cases "h_getitem data key h") simp_all
      show ?thesis
      proof (cases "py_iter q")
        case (Inl e)
        with rep_iter [OF xq] have "h_iter x h = Inl e"
          by (cases "h_iter x h") simp_all
        with Inl Inr \<open>py_contains key p = Inr present\<close> True contains x show ?thesis
          by (simp add: run_rel_def extend_field_h_def extend_field_def extend_h_def then_h_def
              read_h_def and_then_def)
      next
        case (Inr qs)
        with rep_iter [OF xq] obtain vs where vs: "h_iter x h = Inr vs"
          and all: "list_all2 (\<lambda>x q. rep q h n x) vs qs"
          by (cases "h_iter x h") simp_all
        from assms(3) all have "list_all2 (\<lambda>x q. rep q h n x) (xs @ vs) (ys @ qs)"
          by (rule list_all2_appendI)
        then have "\<exists>xs'. store l (HList (xs @ vs)) h = store l (HList xs') h \<and>
                     list_all2 (\<lambda>x q. rep q h n x) xs' (ys @ qs)"
          by blast
        with Inr \<open>py_getitem p key = Inr q\<close> \<open>py_contains key p = Inr present\<close> True contains
          x vs assms(2)
        show ?thesis
          by (simp add: run_rel_def extend_field_h_def extend_field_def extend_h_def then_h_def
              read_h_def and_then_def)
      qed
    qed
  qed
qed

lemma objs_store: "objs (store c obj h) a = (if a = c then obj else objs h a)"
  by (simp add: store_def)

lemma lens_rel_store_counter:
  assumes "lens_rel n h refs acc" and "c \<in> lens_addrs refs"
    and "\<forall>a\<in>lens_addrs refs. a \<noteq> c \<longrightarrow> objs h' a = objs h a"
    and "objs h' (name refs) = HCounter (name acc')"
    and "objs h' (dosage refs) = HCounter (dosage acc')"
    and "objs h' (manufacturer refs) = HCounter (manufacturer acc')"
    and "objs h' (usage refs) = HCounter (usage acc')"
    and "\<exists>xs. objs h' (side_effects refs) = HList xs \<and>
           list_all2 (\<lambda>x q. rep q h' n x) xs (side_effects acc')"
  shows "lens_rel n h' refs acc'"
  using assms by (simp add: lens_rel_def)

lemma lens_rel_D:
  assumes "lens_rel n h refs acc"
  shows "distinct [name refs, dosage refs, side_effects refs, manufacturer refs, usage refs]"
    and "n \<le> name refs" and "n \<le> dosage refs" and "n \<le> side_effects refs"
    and "n \<le> manufacturer refs" and "n \<le> usage refs"
    and "objs h (name refs) = HCounter (name acc)"
    and "objs h (dosage refs) = HCounter (dosage acc)"
    and "objs h (manufacturer refs) = HCounter (manufacturer acc)"
    and "objs h (usage refs) = HCounter (usage acc)"
    and "\<exists>xs. objs h (side_effects refs) = HList xs \<and>
           list_all2 (\<lambda>x q. rep q h n x) xs (side_effects acc)"
  using assms by (simp_all add: lens_rel_def lens_addrs_def)

lemma lens_step_name:
  assumes "lens_rel n h refs acc" and "rep p h n data"
  shows "run_rel (\<lambda>h' c'. lens_rel n h' refs (acc\<lparr>name := c'\<rparr>) \<and> rep p h' n data)
           (tally_field_h key data (name refs) h) (tally_field key p (name acc))"
proof (rule run_rel_weaken [OF tally_field_refines [OF assms(2) lens_rel_D(7) [OF assms(1)]]])
  fix h' c'
  assume h': "h' = store (name refs) (HCounter c') h"
  note D = lens_rel_D [OF assms(1)]
  from D(11) obtain xs where xs: "objs h (side_effects refs) = HList xs"
    "list_all2 (\<lambda>x q. rep q h n x) xs (side_effects acc)" by blast
  from xs(2) D(2) have "list_all2 (\<lambda>x q. rep q h' n x) xs (side_effects acc)"
    unfolding h' by (rule list_rep_store)
  with xs(1) D assms(1) have "lens_rel n h' refs (acc\<lparr>name := c'\<rparr>)"
    unfolding h' by (auto simp: lens_rel_def objs_store)
  moreover from assms(2) D(2) have "rep p h' n data"
    unfolding h' by (rule rep_store)
  ultimately show "lens_rel n h' refs (acc\<lparr>name := c'\<rparr>) \<and> rep p h' n data" ..
qed

lemma lens_step_dosage:
  assumes "lens_rel n h refs acc" and "rep p h n data"
  shows "run_rel (\<lambda>h' c'. lens_rel n h' refs (acc\<lparr>dosage := c'\<rparr>) \<and> rep p h' n data)
           (tally_field_h key data (dosage refs) h) (tally_field key p (dosage acc))"
proof (rule run_rel_weaken [OF tally_field_refines [OF assms(2) lens_rel_D(8) [OF assms(1)]]])
  fix h' c'
  assume h': "h' = store (dosage refs) (HCounter c') h"
  note D = lens_rel_D [OF assms(1)]
  from D(11) obtain xs where xs: "objs h (side_effects refs) = HList xs"
    "list_all2 (\<lambda>x q. rep q h n x) xs (side_effects acc)" by blast
  from xs(2) D(3) have "list_all2 (\<lambda>x q. rep q h' n x) xs (side_effects acc)"
    unfolding h' by (rule list_rep_store)
  with xs(1) D assms(1) have "lens_rel n h' refs (acc\<lparr>dosage := c'\<rparr>)"
    unfolding h' by (auto simp: lens_rel_def objs_store)
  moreover from assms(2) D(3) have "rep p h' n data"
    unfolding h' by (rule rep_store)
  ultimately show "lens_rel n h' refs (acc\<lparr>dosage := c'\<rparr>) \<and> rep p h' n data" ..
qed

lemma lens_step_manufacturer:
  assumes "lens_rel n h refs acc" and "rep p h n data"
  shows "run_rel (\<lambda>h' c'. lens_rel n h' refs (acc\<lparr>manufacturer := c'\<rparr>) \<and> rep p h' n data)
           (tally_field_h key data (manufacturer refs) h) (tally_field key p (manufacturer acc))"
proof (rule run_rel_weaken [OF tally_field_refines [OF assms(2) lens_rel_D(9) [OF assms(1)]]])
  fix h' c'
  assume h': "h' = store (manufacturer refs) (HCounter c') h"
  note D = lens_rel_D [OF assms(1)]
  from D(11) obtain xs where xs: "objs h (side_effects refs) = HList xs"
    "list_all2 (\<lambda>x q. rep q h n x) xs (side_effects acc)" by blast
  from xs(2) D(5) have "list_all2 (\<lambda>x q. rep q h' n x) xs (side_effects acc)"
    unfolding h' by (rule list_rep_store)
  with xs(1) D assms(1) have "lens_rel n h' refs (acc\<lparr>manufacturer := c'\<rparr>)"
    unfolding h' by (auto simp: lens_rel_def objs_store)
  moreover from assms(2) D(5) have "rep p h' n data"
    unfolding h' by (rule rep_store)
  ultimately show "lens_rel n h' refs (acc\<lparr>manufacturer := c'\<rparr>) \<and> rep p h' n data" ..
qed

lemma lens_step_usage:
  assumes "lens_rel n h refs acc" and "rep p h n data"
  shows "run_rel (\<lambda>h' c'. lens_rel n h' refs (acc\<lparr>usage := c'\<rparr>) \<and> rep p h' n data)
           (tally_field_h key data (usage refs) h) (tally_field key p (usage acc))"
proof (rule run_rel_weaken [OF tally_field_refines [OF assms(2) lens_rel_D(10) [OF assms(1)]]])
  fix h' c'
  assume h': "h' = store (usage refs) (HCounter c') h"
  note D = lens_rel_D [OF assms(1)]
  from D(11) obtain xs where xs: "objs h (side_effects refs) = HList xs"
    "list_all2 (\<lambda>x q. rep q h n x) xs (side_effects acc)" by blast
  from xs(2) D(6) have "list_all2 (\<lambda>x q. rep q h' n x) xs (side_effects acc)"
    unfolding h' by (rule list_rep_store)
  with xs(1) D assms(1) have "lens_rel n h' refs (acc\<lparr>usage := c'\<rparr>)"
    unfolding h' by (auto simp: lens_rel_def objs_store)
  moreover from assms(2) D(6) have "rep p h' n data"
    unfolding h' by (rule rep_store)
  ultimately show "lens_rel n h' refs (acc\<lparr>usage := c'\<rparr>) \<and> rep p h' n data" ..
qed

lemma lens_step_side_effects:
  assumes "lens_rel n h refs acc" and "rep p h n data"
  shows "run_rel (\<lambda>h' s'. lens_rel n h' refs (acc\<lparr>side_effects := s'\<rparr>) \<and> rep p h' n data)
           (extend_field_h key data (side_effects refs) h)
           (extend_field key p (side_effects acc))"
proof -
  note D = lens_rel_D [OF assms(1)]
  from D(11) obtain xs where xs: "objs h (side_effects refs) = HList xs"
    "list_all2 (\<lambda>x q. rep q h n x) xs (side_effects acc)" by blast
  show ?thesis
  proof (rule run_rel_weaken [OF extend_field_refines [OF assms(2) xs]])
    fix h' s'
    assume "\<exists>xs'. h' = store (side_effects refs) (HList xs') h \<and>
                 list_all2 (\<lambda>x q. rep q h n x) xs' s'"
    then obtain xs' where h': "h' = store (side_effects refs) (HList xs') h"
      and xs': "list_all2 (\<lambda>x q. rep q h n x) xs' s'" by blast
    from xs' D(4) have "list_all2 (\<lambda>x q. rep q h' n x) xs' s'"
      unfolding h' by (rule list_rep_store)
    with D assms(1) have "lens_rel n h' refs (acc\<lparr>side_effects := s'\<rparr>)"
      unfolding h' by (auto simp: lens_rel_def objs_store)
    moreover from assms(2) D(4) have "rep p h' n data"
      unfolding h' by (rule rep_store)
    ultimately show "lens_rel n h' refs (acc\<lparr>side_effects := s'\<rparr>) \<and> rep p h' n data" ..
  qed
qed

lemma merge_lens_refines:
  assumes "lens_rel n h refs acc" and "rep p h n data"
  shows "run_rel (\<lambda>h' acc'. lens_rel n h' refs acc' \<and> rep p h' n data)
           (merge_lens_h data refs h) (merge_lens p acc)"
proof -
  have s5: "run_rel (\<lambda>h' acc'. lens_rel n h' refs acc' \<and> rep p h' n data)
              (tally_field_h ''usage'' data (usage refs) h4)
              (and_then (tally_field ''usage'' p (usage acc)) (\<lambda>u'.
                 Inr \<lparr>name = n', dosage = d', side_effects = s', manufacturer = m',
                      usage = u'\<rparr>))"
    if "lens_rel n h4 refs \<lparr>name = n', dosage = d', side_effects = s', manufacturer = m',
                           usage = usage acc\<rparr> \<and> rep p h4 n data"
    for h4 n' d' s' m'
  proof -
    from that have *: "lens_rel n h4 refs \<lparr>name = n', dosage = d', side_effects = s',
      manufacturer = m', usage = usage acc\<rparr>" "rep p h4 n data" by simp_all
    have step: "run_rel (\<lambda>h' u'. lens_rel n h' refs \<lparr>name = n', dosage = d',
        side_effects = s', manufacturer = m', usage = u'\<rparr> \<and> rep p h' n data)
      (tally_field_h ''usage'' data (usage refs) h4) (tally_field ''usage'' p (usage acc))"
      using lens_step_usage [OF *, of "''usage''"] by simp
    show ?thesis by (rule run_rel_map [OF step]) assumption
  qed
  have s4: "run_rel (\<lambda>h' acc'. lens_rel n h' refs acc' \<and> rep p h' n data)
              (then_h (tally_field_h ''manufacturer'' data (manufacturer refs)) (\<lambda>_.
                 tally_field_h ''usage'' data (usage refs)) h3)
              (and_then (tally_field ''manufacturer'' p (manufacturer acc)) (\<lambda>m'.
               and_then (tally_field ''usage'' p (usage acc)) (\<lambda>u'.
                 Inr \<lparr>name = n', dosage = d', side_effects = s', manufacturer = m',
                      usage = u'\<rparr>)))"
    if "lens_rel n h3 refs \<lparr>name = n', dosage = d', side_effects = s',
          manufacturer = manufacturer acc, usage = usage acc\<rparr> \<and> rep p h3 n data"
    for h3 n' d' s'
  proof -
    from that have *: "lens_rel n h3 refs \<lparr>name = n', dosage = d', side_effects = s',
      manufacturer = manufacturer acc, usage = usage acc\<rparr>" "rep p h3 n data" by simp_all
    have step: "run_rel (\<lambda>h' m'. lens_rel n h' refs \<lparr>name = n', dosage = d',
        side_effects = s', manufacturer = m', usage = usage acc\<rparr> \<and> rep p h' n data)
      (tally_field_h ''manufacturer'' data (manufacturer refs) h3)
      (tally_field ''manufacturer'' p (manufacturer acc))"
      using lens_step_manufacturer [OF *, of "''manufacturer''"] by simp
    show ?thesis by (rule run_rel_then, rule step, rule s5, assumption)
  qed
  have s3: "run_rel (\<lambda>h' acc'. lens_rel n h' refs acc' \<and> rep p h' n data)
              (then_h (extend_field_h ''side_effects'' data (side_effects refs)) (\<lambda>_.
               then_h (tally_field_h ''manufacturer'' data (manufacturer refs)) (\<lambda>_.
                 tally_field_h ''usage'' data (usage refs))) h2)
              (and_then (extend_field ''side_effects'' p (side_effects acc)) (\<lambda>s'.
               and_then (tally_field ''manufacturer'' p (manufacturer acc)) (\<lambda>m'.
               and_then (tally_field ''usage'' p (usage acc)) (\<lambda>u'.
                 Inr \<lparr>name = n', dosage = d', side_effects = s', manufacturer = m',
                      usage = u'\<rparr>))))"
    if "lens_rel n h2 refs \<lparr>name = n', dosage = d', side_effects = side_effects acc,
          manufacturer = manufacturer acc, usage = usage acc\<rparr> \<and> rep p h2 n data"
    for h2 n' d'
  proof -
    from that have *: "lens_rel n h2 refs \<lparr>name = n', dosage = d',
      side_effects = side_effects acc,
      manufacturer = manufacturer acc, usage = usage acc\<rparr>" "rep p h2 n data" by simp_all
    have step: "run_rel (\<lambda>h' s'. lens_rel n h' refs \<lparr>name = n', dosage = d',
        side_effects = s', manufacturer = manufacturer acc, usage = usage acc\<rparr> \<and>
        rep p h' n data)
      (extend_field_h ''side_effects'' data (side_effects refs) h2)
      (extend_field ''side_effects'' p (side_effects acc))"
      using lens_step_side_effects [OF *, of "''side_effects''"] by simp
    show ?thesis by (rule run_rel_then, rule step, rule s4, assumption)
  qed
  have s2: "run_rel (\<lambda>h' acc'. lens_rel n h' refs acc' \<and> rep p h' n data)
              (then_h (tally_field_h ''dosage'' data (dosage refs)) (\<lambda>_.
               then_h (extend_field_h ''side_effects'' data (side_effects refs)) (\<lambda>_.
               then_h (tally_field_h ''manufacturer'' data (manufacturer refs)) (\<lambda>_.
                 tally_field_h ''usage'' data (usage refs)))) h1)
              (and_then (tally_field ''dosage'' p (dosage acc)) (\<lambda>d'.
               and_then (extend_field ''side_effects'' p (side_effects acc)) (\<lambda>s'.
               and_then (tally_field ''manufacturer'' p (manufacturer acc)) (\<lambda>m'.
               and_then (tally_field ''usage'' p (usage acc)) (\<lambda>u'.
                 Inr \<lparr>name = n', dosage = d', side_effects = s', manufacturer = m',
                      usage = u'\<rparr>)))))"
    if "lens_rel n h1 refs \<lparr>name = n', dosage = dosage acc, side_effects = side_effects acc,
          manufacturer = manufacturer acc, usage = usage acc\<rparr> \<and> rep p h1 n data"
    for h1 n'
  proof -
    from that have *: "lens_rel n h1 refs \<lparr>name = n', dosage = dosage acc,
      side_effects = side_effects acc,
      manufacturer = manufacturer acc, usage = usage acc\<rparr>" "rep p h1 n data" by simp_all
    have step: "run_rel (\<lambda>h' d'. lens_rel n h' refs \<lparr>name = n', dosage = d',
        side_effects = side_effects acc, manufacturer = manufacturer acc,
        usage = usage acc\<rparr> \<and> rep p h' n data)
      (tally_field_h ''dosage'' data (dosage refs) h1)
      (tally_field ''dosage'' p (dosage acc))"
      using lens_step_dosage [OF *, of "''dosage''"] by simp
    show ?thesis by (rule run_rel_then, rule step, rule s3, assumption)
  qed
  have step: "run_rel (\<lambda>h' n'. lens_rel n h' refs \<lparr>name = n', dosage = dosage acc,
        side_effects = side_effects acc, manufacturer = manufacturer acc,
        usage = usage acc\<rparr> \<and> rep p h' n data)
      (tally_field_h ''name'' data (name refs) h)
      (tally_field ''name'' p (name acc))"
  proof -
    have "acc\<lparr>name := n'\<rparr> = \<lparr>name = n', dosage = dosage acc,
      side_effects = side_effects acc,
      manufacturer = manufacturer acc, usage = usage acc\<rparr>" for n'
      by simp
    with lens_step_name [OF assms, of "''name''"] show ?thesis by simp
  qed
  show ?thesis
    unfolding merge_lens_h_def merge_lens_def
    by (rule run_rel_then, rule step, rule s2, assumption)
qed

declare rep.simps [simp del]

lemma rep_unchanged:
  assumes "rep p h n v" and "unchanged_outside A h h'" and "\<forall>a\<in>A. n \<le> a"
  shows "rep p h' n v"
proof -
  have "\<forall>a. a < n \<longrightarrow> objs h' a = objs h a"
  proof (intro allI impI)
    fix a
    assume "a < n"
    with assms(3) have "a \<notin> A" by auto
    with assms(2) show "objs h' a = objs h a" by (simp add: unchanged_outside_def)
  qed
  with assms(1) show ?thesis by (rule rep_stable)
qed

lemma lens_rel_unchanged:
  assumes "lens_rel n h refs acc" and "unchanged_outside A h h'"
    and "A \<inter> lens_addrs refs = {}" and "\<forall>a\<in>A. n \<le> a"
  shows "lens_rel n h' refs acc"
proof -
  note D = lens_rel_D [OF assms(1)]
  from assms(2,3) have same: "\<And>a. a \<in> lens_addrs refs \<Longrightarrow> objs h' a = objs h a"
    by (auto simp: unchanged_outside_def)
  from D(11) obtain xs where xs: "objs h (side_effects refs) = HList xs"
    "list_all2 (\<lambda>x q. rep q h n x) xs (side_effects acc)" by blast
  from xs(2) have "list_all2 (\<lambda>x q. rep q h' n x) xs (side_effects acc)"
    by (rule list_all2_mono) (rule rep_unchanged [OF _ assms(2,4)])
  with xs(1) D assms(1) same show ?thesis
    by (simp add: lens_rel_def lens_addrs_def)
qed

lemma merge_key_refines:
  assumes "lens_rel n h refs acc" and "rep (PDict d) h n result"
  shows "run_rel (\<lambda>h' acc'. lens_rel n h' refs acc' \<and> rep (PDict d) h' n result)
           (merge_key_h key result refs h)
           (case map_of d key of None \<Rightarrow> Inr acc | Some data \<Rightarrow> merge_lens data acc)"
proof (cases "map_of d key")
  case None
  with rep_contains [OF assms(2), of key]
  have "merge_key_h key result refs h = (Inr (), h)"
    by (simp add: merge_key_h_def then_h_def read_h_def return_h_def)
  with None assms show ?thesis
    by (simp add: run_rel_def)
next
  case (Some p)
  with rep_contains [OF assms(2), of key] have present: "h_contains key result h = Inr True"
    by simp
  from Some rep_getitem [OF assms(2), of key] obtain data where
    data: "h_getitem result key h = Inr data" and p: "rep p h n data"
    by (cases "h_getitem result key h") simp_all
  have run: "merge_key_h key result refs h = merge_lens_h data refs h"
    by (simp add: merge_key_h_def then_h_def read_h_def present data)
  have "run_rel (\<lambda>h' acc'. lens_rel n h' refs acc' \<and> rep (PDict d) h' n result)
          (merge_lens_h data refs h) (merge_lens p acc)"
  proof (cases "merge_lens p acc")
    case (Inl e)
    with merge_lens_refines [OF assms(1) p] show ?thesis by (simp add: run_rel_def)
  next
    case (Inr acc')
    with merge_lens_refines [OF assms(1) p]
    have ok: "fst (merge_lens_h data refs h) = Inr ()"
      and rel: "lens_rel n (snd (merge_lens_h data refs h)) refs acc'"
      by (simp_all add: run_rel_def)
    from lens_rel_D(2-6) [OF assms(1)] have "\<forall>a\<in>lens_addrs refs. n \<le> a"
      by (simp add: lens_addrs_def)
    with assms(2) unchanged_merge_lens
    have "rep (PDict d) (snd (merge_lens_h data refs h)) n result"
      by (rule rep_unchanged)
    with ok rel Inr show ?thesis by (simp add: run_rel_def)
  qed
  with run Some show ?thesis by simp
qed

lemma acc_rel_D:
  assumes "acc_rel n h refs acc"
  shows "lens_rel n h (accurate refs) (accurate acc)"
    and "lens_rel n h (guessed refs) (guessed acc)"
    and "lens_addrs (accurate refs) \<inter> lens_addrs (guessed refs) = {}"
    and "\<forall>a\<in>lens_addrs (accurate refs). n \<le> a"
    and "\<forall>a\<in>lens_addrs (guessed refs). n \<le> a"
  using assms by (simp_all add: acc_rel_def lens_rel_def)

lemma merge_result_refines:
  assumes "acc_rel n h refs acc" and "rep r h n result"
  shows "run_rel (\<lambda>h' acc'. acc_rel n h' refs acc') (merge_result_h result refs h)
           (merge_result r acc)"
proof (cases "is_dict r")
  case False
  with rep_is_dict [OF assms(2)] have "merge_result_h result refs h = (Inr (), h)"
    by (simp add: merge_result_h_def)
  moreover from False have "merge_result r acc = Inr acc"
    by (rule merge_result_non_dict)
  ultimately show ?thesis using assms(1) by (simp add: run_rel_def)
next
  case True
  then obtain d where r: "r = PDict d" by (cases r) simp_all
  note D = acc_rel_D [OF assms(1)]
  from True rep_is_dict [OF assms(2)]
  have run: "merge_result_h result refs h =
      then_h (merge_key_h ''accurate'' result (accurate refs))
        (\<lambda>_. merge_key_h ''guessed'' result (guessed refs)) h"
    by (simp add: merge_result_h_def)
  have pure: "merge_result r acc =
      and_then (case map_of d ''accurate'' of
                  None \<Rightarrow> Inr (accurate acc)
                | Some data \<Rightarrow> merge_lens data (accurate acc)) (\<lambda>a.
      and_then (case map_of d ''guessed'' of
                  None \<Rightarrow> Inr (guessed acc)
                | Some data \<Rightarrow> merge_lens data (guessed acc)) (\<lambda>g.
        Inr \<lparr>accurate = a, guessed = g\<rparr>))"
    by (simp add: merge_result_def r)
  let ?Q1 = "\<lambda>h' a. lens_rel n h' (accurate refs) a \<and> rep (PDict d) h' n result \<and>
               lens_rel n h' (guessed refs) (guessed acc)"
  have first: "run_rel ?Q1 (merge_key_h ''accurate'' result (accurate refs) h)
      (case map_of d ''accurate'' of
                  None \<Rightarrow> Inr (accurate acc)
                | Some data \<Rightarrow> merge_lens data (accurate acc))"
  proof -
    let ?h' = "snd (merge_key_h ''accurate'' result (accurate refs) h)"
    from D(2) unchanged_merge_key D(3) D(4)
    have "lens_rel n ?h' (guessed refs) (guessed acc)"
      by (rule lens_rel_unchanged)
    with merge_key_refines [OF D(1) assms(2) [unfolded r], of "''accurate''"]
    show ?thesis
      by (simp add: run_rel_def split: sum.splits)
  qed
  have second: "run_rel (\<lambda>h' acc'. acc_rel n h' refs acc')
      (merge_key_h ''guessed'' result (guessed refs) h1)
      (and_then (case map_of d ''guessed'' of
                  None \<Rightarrow> Inr (guessed acc)
                | Some data \<Rightarrow> merge_lens data (guessed acc)) (\<lambda>g.
        Inr \<lparr>accurate = a, guessed = g\<rparr>))"
    if "?Q1 h1 a" for h1 a
  proof -
    from that have a: "lens_rel n h1 (accurate refs) a"
      and res: "rep (PDict d) h1 n result"
      and g: "lens_rel n h1 (guessed refs) (guessed acc)" by simp_all
    let ?h' = "snd (merge_key_h ''guessed'' result (guessed refs) h1)"
    from D(3) have disj: "lens_addrs (guessed refs) \<inter> lens_addrs (accurate refs) = {}"
      by blast
    from a unchanged_merge_key disj D(5)
    have a': "lens_rel n ?h' (accurate refs) a"
      by (rule lens_rel_unchanged)
    have step: "run_rel (\<lambda>h' g'. lens_rel n h' (accurate refs) a \<and>
                  lens_rel n h' (guessed refs) g')
      (merge_key_h ''guessed'' result (guessed refs) h1)
      (case map_of d ''guessed'' of
                  None \<Rightarrow> Inr (guessed acc)
                | Some data \<Rightarrow> merge_lens data (guessed acc))"
      using merge_key_refines [OF g res, of "''guessed''"] a'
      by (simp add: run_rel_def split: sum.splits)
    show ?thesis
      by (rule run_rel_map [OF step]) (simp add: acc_rel_def D(3))
  qed
  show ?thesis
    unfolding run pure
    by (rule run_rel_then, rule first, rule second, assumption)
qed

lemma acc_rel_addrs:
  assumes "acc_rel n h refs acc"
  shows "\<forall>a\<in>all_addrs refs. n \<le> a"
  using acc_rel_D(4,5) [OF assms] by (auto simp: all_addrs_def)

lemma merge_loop_refines:
  assumes "list_all2 (\<lambda>x q. rep q h n x) elems rs" and "acc_rel n h refs acc"
  shows "run_rel (\<lambda>h' acc'. acc_rel n h' refs acc') (merge_loop_h elems refs h)
           (merge_loop rs acc)"
  using assms
proof (induction elems arbitrary: rs h acc)
  case Nil
  then show ?case by (simp add: run_rel_def return_h_def)
next
  case (Cons x elems rs0)
  from Cons.prems(1) obtain q rs where rs0: "rs0 = q # rs" and q: "rep q h n x"
    and tail: "list_all2 (\<lambda>x q. rep q h n x) elems rs"
    by (auto simp: list_all2_Cons1)
  have rest: "run_rel (\<lambda>h' acc'. acc_rel n h' refs acc') (merge_loop_h elems refs h1)
      (merge_loop rs acc1)"
    if "acc_rel n h1 refs acc1 \<and> unchanged_outside (all_addrs refs) h h1" for h1 acc1
  proof -
    from that have rel: "acc_rel n h1 refs acc1"
      and un: "unchanged_outside (all_addrs refs) h h1" by simp_all
    from tail have "list_all2 (\<lambda>x q. rep q h1 n x) elems rs"
      by (rule list_all2_mono) (rule rep_unchanged [OF _ un acc_rel_addrs [OF Cons.prems(2)]])
    then show ?thesis using rel by (rule Cons.IH)
  qed
  have step: "run_rel (\<lambda>h' acc'. acc_rel n h' refs acc' \<and>
                  unchanged_outside (all_addrs refs) h h')
      (merge_result_h x refs h) (merge_result q acc)"
    using merge_result_refines [OF Cons.prems(2) q]
      unchanged_merge_result [of refs h x]
    by (simp add: run_rel_def split: sum.splits)
  show ?case
    unfolding rs0
    by (simp only: merge_loop_h.simps merge_loop.simps)
       (rule run_rel_then, rule step, rule rest, assumption)
qed

lemma py_set_h_refines:
  assumes "list_all2 (\<lambda>x q. rep q h n x) xs ys"
  shows "py_set_h xs = py_set ys"
proof -
  from assms have "list_all (\<lambda>x. scalar x \<noteq> None) xs = list_all hashable ys \<and>
    (list_all hashable ys \<longrightarrow> map (\<lambda>x. the (scalar x)) xs = ys)"
    by (induction rule: list_all2_induct) (auto simp: rep_scalar)
  then show ?thesis by (auto simp: py_set_h_def py_set_def)
qed

lemma summarise_lens_refines:
  assumes "lens_rel n h refs acc"
  shows "summarise_lens_h h refs = summarise_lens acc"
proof -
  note D = lens_rel_D [OF assms]
  from D(11) obtain xs where xs: "objs h (side_effects refs) = HList xs"
    "list_all2 (\<lambda>x q. rep q h n x) xs (side_effects acc)" by blast
  from xs have "py_set_h (list_at h (side_effects refs)) = py_set (side_effects acc)"
    by (simp add: list_at_def py_set_h_refines)
  with D(7-10) show ?thesis
    by (simp add: summarise_lens_h_def summarise_lens_def counter_at_def)
qed

lemma summarise_refines:
  assumes "acc_rel n h refs acc"
  shows "summarise_h refs h = summarise acc"
  using acc_rel_D(1,2) [OF assms]
  by (simp add: summarise_h_def summarise_def summarise_lens_refines)

lemma new_merged_data_rel:
  assumes "new_merged_data h = (refs, h1)" and "n \<le> next_free h"
  shows "acc_rel n h1 refs empty_merged"
proof -
  obtain a h0 where a: "new_lens h = (a, h0)" by (cases "new_lens h")
  obtain g h2 where g: "new_lens h0 = (g, h2)" by (cases "new_lens h0")
  from assms a g have refs: "refs = \<lparr>accurate = a, guessed = g\<rparr>" and h1: "h1 = h2"
    by (simp_all add: new_merged_data_def)
  note A = new_lens_fresh [OF a]
  note G = new_lens_fresh [OF g]
  from A G assms(2) show ?thesis
    by (simp add: acc_rel_def lens_rel_def lens_addrs_def refs h1 empty_merged_def
        empty_lens_def)
qed

lemma merge_results_h_refines:
  assumes "rep (PList rs) h n results" and "n \<le> next_free h"
  shows "fst (merge_results_h results h) = merge_results rs"
proof -
  obtain refs h1 where new: "new_merged_data h = (refs, h1)" by (cases "new_merged_data h")
  note rel = new_merged_data_rel [OF new assms(2)]
  from new_merged_data_fresh(3) [OF new] assms(2)
  have "\<forall>a. a < n \<longrightarrow> objs h1 a = objs h a" by simp
  with assms(1) have rep1: "rep (PList rs) h1 n results" by (rule rep_stable)
  from rep_iter [OF rep1] obtain elems where
    elems: "h_iter results h1 = Inr elems"
    and all: "list_all2 (\<lambda>x q. rep q h1 n x) elems rs"
    by (cases "h_iter results h1") simp_all
  have run: "merge_results_h results h =
      then_h (merge_loop_h elems refs) (\<lambda>_. read_h (summarise_h refs)) h1"
    by (simp add: merge_results_h_def new then_h_def read_h_def elems)
  show ?thesis
  proof (cases "merge_loop rs empty_merged")
    case (Inl e)
    with merge_loop_refines [OF all rel] have "fst (merge_loop_h elems refs h1) = Inl e"
      by (simp add: run_rel_def)
    with Inl show ?thesis
      by (cases "merge_loop_h elems refs h1")
         (simp add: run then_h_def merge_results_def and_then_def)
  next
    case (Inr acc)
    with merge_loop_refines [OF all rel]
    have ok: "fst (merge_loop_h elems refs h1) = Inr ()"
      and acc: "acc_rel n (snd (merge_loop_h elems refs h1)) refs acc"
      by (simp_all add: run_rel_def)
    from summarise_refines [OF acc] ok Inr show ?thesis
      by (cases "merge_loop_h elems refs h1")
         (simp add: run then_h_def read_h_def merge_results_def and_then_def)
  qed
qed

section \<open>\<open>merge_results\<close> is a pure function\<close>

text \<open>
  C9. Let the argument \<open>results\<close> stand, in a store \<open>h\<close>, for a list of values \<open>rs\<close> made of
  objects that exist. The call allocates its accumulators and leaves every object that
  existed before as it was, so that the input sequence and every ImageResult in it are
  unchanged and \<open>results\<close> still stands for \<open>rs\<close>. What the call returns (the consolidated
  record, its \<open>side_effects\<close> being sets, or an exception) is \<open>merge_results rs\<close> of the
  functional model: it depends on the value \<open>rs\<close> alone. Hence a call on any reference
  that stands for the same value \<open>rs\<close> in any store, the store left by the first call
  included, returns the same.
\<close>

theorem merge_results_is_pure:
  assumes "rep (PList rs) h n results" and "n \<le> next_free h"
  shows "next_free h \<le> next_free (snd (merge_results_h results h)) \<and>
         (\<forall>a. a < next_free h \<longrightarrow> objs (snd (merge_results_h results h)) a = objs h a) \<and>
         rep (PList rs) (snd (merge_results_h results h)) n results \<and>
         fst (merge_results_h results h) = merge_results rs \<and>
         (rep (PList rs) h' n' results' \<and> n' \<le> next_free h' \<longrightarrow>
            fst (merge_results_h results' h') = fst (merge_results_h results h))"
proof -
  note frame = merge_results_h_frame [of h results]
  from frame assms(2)
  have "\<forall>a. a < n \<longrightarrow> objs (snd (merge_results_h results h)) a = objs h a"
    by simp
  with assms(1) have still: "rep (PList rs) (snd (merge_results_h results h)) n results"
    by (rule rep_stable)
  have out: "fst (merge_results_h results h) = merge_results rs"
    using assms by (rule merge_results_h_refines)
  have again: "rep (PList rs) h' n' results' \<and> n' \<le> next_free h' \<longrightarrow>
            fst (merge_results_h results' h') = fst (merge_results_h results h)"
  proof
    assume "rep (PList rs) h' n' results' \<and> n' \<le> next_free h'"
    then have "rep (PList rs) h' n' results'" and "n' \<le> next_free h'" by simp_all
    then have "fst (merge_results_h results' h') = merge_results rs"
      by (rule merge_results_h_refines)
    with out show "fst (merge_results_h results' h') = fst (merge_results_h results h)"
      by simp
  qed
  from frame still out again show ?thesis by (intro conjI) simp_all
qed

theorem merge_results_is_pure_witness:
  "rep (PList ex_results) ex_heap 6 (HRef 0) \<and> 6 \<le> next_free ex_heap \<and>
   objs (snd (merge_results_h (HRef 0) ex_heap)) 0 = HList [HRef 1, HRef 3] \<and>
   objs (snd (merge_results_h (HRef 0) ex_heap)) 2 =
     HDict [(''name'', HStr ''A''), (''side_effects'', HRef 5)] \<and>
   objs (snd (merge_results_h (HRef 0) ex_heap)) 5 = HList [HStr ''nausea''] \<and>
   fst (merge_results_h (HRef 0) ex_heap) =
     Inr \<lparr>accurate = \<lparr>name = PStr ''A'', dosage = PStr ''Unknown'',
                       side_effects = {PStr ''nausea''},
                       manufacturer = PStr ''Unknown'', usage = PStr ''Unknown''\<rparr>,
          guessed = \<lparr>name = PStr ''Unknown'', dosage = PStr ''Unknown'', side_effects = {},
                      manufacturer = PStr ''Unknown'', usage = PStr ''Unknown''\<rparr>\<rparr> \<and>
   fst (merge_results_h (HRef 0) (snd (merge_results_h (HRef 0) ex_heap))) =
     fst (merge_results_h (HRef 0) ex_heap)"
proof -
  let ?after = "snd (merge_results_h (HRef 0) ex_heap)"
  have input: "rep (PList ex_results) ex_heap 6 (HRef 0)"
    by (simp add: ex_results_def ex_heap_def rep.simps)
  have allocated: "6 \<le> next_free ex_heap"
    by (simp add: ex_heap_def)
  note first = merge_results_is_pure
    [where h' = ?after and n' = 6 and results' = "HRef 0", OF input allocated]
  note grows = first [THEN conjunct1]
  note frame = first [THEN conjunct2, THEN conjunct1]
  note still = first [THEN conjunct2, THEN conjunct2, THEN conjunct1]
  note out = first [THEN conjunct2, THEN conjunct2, THEN conjunct2, THEN conjunct1]
  note again = first [THEN conjunct2, THEN conjunct2, THEN conjunct2, THEN conjunct2]
  from frame have o0: "objs ?after 0 = HList [HRef 1, HRef 3]"
    and o2: "objs ?after 2 = HDict [(''name'', HStr ''A''), (''side_effects'', HRef 5)]"
    and o5: "objs ?after 5 = HList [HStr ''nausea'']"
    by (simp_all add: ex_heap_def)
  have merged: "merge_results ex_results =
     Inr \<lparr>accurate = \<lparr>name = PStr ''A'', dosage = PStr ''Unknown'',
                       side_effects = {PStr ''nausea''},
                       manufacturer = PStr ''Unknown'', usage = PStr ''Unknown''\<rparr>,
          guessed = \<lparr>name = PStr ''Unknown'', dosage = PStr ''Unknown'', side_effects = {},
                      manufacturer = PStr ''Unknown'', usage = PStr ''Unknown''\<rparr>\<rparr>"
    by (simp add: ex_results_def merge_results_def empty_merged_def empty_lens_def
        merge_result_def merge_lens_def tally_field_def extend_field_def counter_incr_def
        summarise_def summarise_lens_def top_or_unknown_def most_common_1_def py_set_def
        set_add_def and_then_def)
  from grows allocated have "6 \<le> next_free ?after" by simp
  with again still
  have twice: "fst (merge_results_h (HRef 0) ?after) = fst (merge_results_h (HRef 0) ex_heap)"
    by simp
  from input allocated o0 o2 o5 out merged twice show ?thesis
    by (simp only: simp_thms)
qed

end
